theory Spec2Isabelle
  imports Complex_Main "HOL-Library.Word"
begin

section \<open>Exceptions and outcomes\<close>

text \<open>
  A C++ call either returns or leaves by an exception. An outcome keeps, in both cases, the
  state of the objects the call works on as it is at that moment, so that what a call has
  already changed when it throws stays visible. \<open>NullDeref\<close> and \<open>UseAfterFree\<close> stand for
  the undefined behaviour of dereferencing a null pointer and of reading a destroyed
  object.
\<close>

datatype exn = OutOfRange | InvalidArgument | NullDeref | UseAfterFree

datatype ('r, 's) outcome = Returns 'r 's | Throws exn 's

section \<open>Tower_converter (Tower_to_filtration/include/gudhi/tower_converter.h)\<close>

text \<open>
  \<open>vertex\<close> and \<open>index\<close> are \<open>double\<close> in the source; the model uses \<open>real\<close>, which
  agrees with \<open>double\<close> on the identifiers and counters the converter handles (integers
  below \<open>2^53\<close>). The output file is the sequence of items written to it so far; a
  \<open>size_type\<close> is an unsigned 64-bit integer.
\<close>

type_synonym simplex_base = "real list"

datatype streamingType = FACES | VERTICES

datatype stream_item = UInt "64 word" | Double real | Space | Newline

text \<open>
  The template parameter \<open>ComplexStructure\<close>: the member functions the converter calls.
  Each takes the complex and returns it, since none of them is declared const.
  \<open>get_boundary\<close> appends to the vector it is given and returns the simplex identifier.
\<close>

record 'c ComplexStructure =
  insert_simplex :: "simplex_base \<Rightarrow> 'c \<Rightarrow> bool \<times> 'c"
  get_size :: "'c \<Rightarrow> real"
  get_boundary :: "simplex_base \<Rightarrow> real list \<Rightarrow> 'c \<Rightarrow> real \<times> real list \<times> 'c"

record 'c Tower_converter =
  complex :: 'c
  vertices :: "real \<rightharpoonup> real"
  outputStream :: "stream_item list option"
  streamType :: streamingType
  filtrationSize :: real
  towerWidth :: real

text \<open>
  A data member \<open>name_\<close> of the source is the field \<open>name\<close> of the record (the
  member \<open>streamingType_\<close> is \<open>streamType\<close>). The constructor without parameters: no
  output, everything else empty.
\<close>

definition Tower_converter_init :: "'c \<Rightarrow> 'c Tower_converter" where
  "Tower_converter_init c =
     \<lparr>complex = c, vertices = Map.empty, outputStream = None,
      streamType = VERTICES, filtrationSize = 0, towerWidth = 0\<rparr>"

text \<open>
  The loop \<open>for (i = 0; i < size; i++) *outputStream << v.at(i) << " "\<close>, from index
  \<open>i\<close> with \<open>n\<close> rounds left: \<open>at\<close> throws past the end of \<open>v\<close>, after the earlier
  items have been written.
\<close>

fun stream_at :: "real list \<Rightarrow> nat \<Rightarrow> nat \<Rightarrow> stream_item list \<Rightarrow> bool \<times> stream_item list" where
  "stream_at v i 0 out = (True, out)"
| "stream_at v i (Suc n) out =
     (if i < length v then stream_at v (Suc i) n (out @ [Double (v ! i), Space])
      else (False, out))"

definition stream_simplex ::
  "'c ComplexStructure \<Rightarrow> 'c Tower_converter \<Rightarrow> simplex_base \<Rightarrow> real
    \<Rightarrow> (unit, 'c Tower_converter) outcome" where
  "stream_simplex ops s simplex timestamp =
     (let s1 = s\<lparr>filtrationSize := filtrationSize s + 1\<rparr> in
      case outputStream s1 of
        None \<Rightarrow> Returns () s1
      | Some out \<Rightarrow>
          (let size = length simplex;
               out1 = out @ [UInt (of_nat size - 1), Space] in
           case streamType s1 of
             FACES \<Rightarrow>
               (if size > 1 then
                  (case get_boundary ops simplex [] (complex s1) of
                     (idx, boundary, c') \<Rightarrow>
                       (case stream_at boundary 0 size out1 of
                          (True, out2) \<Rightarrow>
                            Returns () (s1\<lparr>complex := c',
                              outputStream := Some (out2 @ [Double timestamp, Newline])\<rparr>)
                        | (False, out2) \<Rightarrow>
                            Throws OutOfRange (s1\<lparr>complex := c', outputStream := Some out2\<rparr>)))
                else Returns () (s1\<lparr>outputStream := Some (out1 @ [Double timestamp, Newline])\<rparr>))
           | VERTICES \<Rightarrow>
               (case stream_at simplex 0 size out1 of
                  (True, out2) \<Rightarrow>
                    Returns () (s1\<lparr>outputStream := Some (out2 @ [Double timestamp, Newline])\<rparr>)
                | (False, out2) \<Rightarrow> Throws OutOfRange (s1\<lparr>outputStream := Some out2\<rparr>))))"

text \<open>
  The first part of \<open>add_insertion\<close>: the simplex with its vertices translated. A vertex
  registers itself (\<open>emplace\<close> keeps an entry that is already there); for any other size
  every vertex is looked up with \<open>at\<close>, which throws on an unknown one, and the result is
  sorted. \<open>transSimplex\<close> is a local, so nothing has changed when \<open>at\<close> throws.
\<close>

definition translate_simplex ::
  "'c Tower_converter \<Rightarrow> simplex_base \<Rightarrow> (simplex_base, 'c Tower_converter) outcome" where
  "translate_simplex s simplex =
     (if length simplex = 1 then
        (let v = simplex ! 0 in
         Returns [v]
           (case vertices s v of
              None \<Rightarrow> s\<lparr>vertices := (vertices s)(v \<mapsto> v)\<rparr>
            | Some _ \<Rightarrow> s))
      else
        (case those (map (vertices s) simplex) of
           None \<Rightarrow> Throws OutOfRange s
         | Some ts \<Rightarrow> Returns (sort ts) s))"

text \<open>
  \<open>add_insertion\<close> with its two out-parameters: \<open>None\<close> is the null pointer, \<open>Some\<close> the
  current content of the pointed-to object. The result holds the returned flag and the
  out-parameters after the call.
\<close>

definition add_insertion ::
  "'c ComplexStructure \<Rightarrow> 'c Tower_converter \<Rightarrow> simplex_base \<Rightarrow> real
    \<Rightarrow> real list option \<Rightarrow> real option
    \<Rightarrow> (bool \<times> real list option \<times> real option, 'c Tower_converter) outcome" where
  "add_insertion ops s simplex timestamp simplexBoundary simplexInsertionNumber =
     (case translate_simplex s simplex of
        Throws e s' \<Rightarrow> Throws e s'
      | Returns transSimplex s1 \<Rightarrow>
          (case insert_simplex ops transSimplex (complex s1) of
             (True, c1) \<Rightarrow>
               (case stream_simplex ops (s1\<lparr>complex := c1\<rparr>) transSimplex timestamp of
                  Throws e s' \<Rightarrow> Throws e s'
                | Returns _ s2 \<Rightarrow>
                    (let s3 = (if get_size ops (complex s2) > towerWidth s2
                               then s2\<lparr>towerWidth := get_size ops (complex s2)\<rparr> else s2) in
                     case simplexBoundary of
                       None \<Rightarrow> Returns (True, None, simplexInsertionNumber) s3
                     | Some b \<Rightarrow>
                         (case get_boundary ops transSimplex b (complex s3) of
                            (idx, b', c2) \<Rightarrow>
                              (case simplexInsertionNumber of
                                 None \<Rightarrow> Throws NullDeref (s3\<lparr>complex := c2\<rparr>)
                               | Some _ \<Rightarrow>
                                   Returns (True, Some b', Some idx) (s3\<lparr>complex := c2\<rparr>)))))
           | (False, c1) \<Rightarrow>
               Returns (False, simplexBoundary, simplexInsertionNumber) (s1\<lparr>complex := c1\<rparr>)))"

definition get_filtration_size :: "'c Tower_converter \<Rightarrow> real" where
  "get_filtration_size s = filtrationSize s"

definition get_tower_width :: "'c Tower_converter \<Rightarrow> real" where
  "get_tower_width s = towerWidth s"

text \<open>
  A small complex structure to run the converter on: the list of the simplices inserted so
  far, a simplex being identified by its position.
\<close>

definition list_complex :: "(simplex_base list) ComplexStructure" where
  "list_complex =
     \<lparr>insert_simplex = (\<lambda>sx c. if sx \<in> set c then (False, c) else (True, c @ [sx])),
      get_size = (\<lambda>c. real (length c)),
      get_boundary = (\<lambda>sx b c. (real (length (takeWhile (\<lambda>x. x \<noteq> sx) c)), b, c))\<rparr>"

section \<open>Z2_unordered_set_column (column_types/z2_unordered_set_column.h)\<close>

text \<open>
  A row index is an \<open>unsigned int\<close>, the cached pivot an \<open>int\<close>: \<open>static_cast<int>\<close> and
  the assignment of a row to \<open>pivot_\<close> read the 32 bits as a signed number (\<open>sint\<close>). The
  hash set \<open>column_\<close> is the list of its elements, without repetition, in the order the
  iteration visits them; an inserted element is put last. Fields carry the prefix \<open>us\<close>.
\<close>

record Z2_unordered_set_column =
  us_dim :: int
  us_column :: "32 word list"
  us_pivotChanged :: bool
  us_pivot :: int

text \<open>\<open>*std::max_element(first, last)\<close> on a non-empty range of unsigned integers.\<close>

definition max_element :: "32 word list \<Rightarrow> 32 word" where
  "max_element xs = fold max (tl xs) (hd xs)"

definition Z2_unordered_set_column_default :: Z2_unordered_set_column where
  "Z2_unordered_set_column_default =
     \<lparr>us_dim = 0, us_column = [], us_pivotChanged = False, us_pivot = - 1\<rparr>"

definition Z2_unordered_set_column_of :: "32 word list \<Rightarrow> Z2_unordered_set_column" where
  "Z2_unordered_set_column_of boundary =
     \<lparr>us_dim = (if length boundary = 0 then 0 else int (length boundary) - 1),
      us_column = remdups boundary,
      us_pivotChanged = False,
      us_pivot = (if length boundary = 0 then - 1 else sint (max_element boundary))\<rparr>"

definition us_is_empty :: "Z2_unordered_set_column \<Rightarrow> bool" where
  "us_is_empty c = (us_column c = [])"

definition us_contains :: "Z2_unordered_set_column \<Rightarrow> 32 word \<Rightarrow> bool" where
  "us_contains c v = (v \<in> set (us_column c))"

text \<open>\<open>get_pivot\<close> refreshes the cache when the flag is set, so it returns the column too.\<close>

definition us_get_pivot :: "Z2_unordered_set_column \<Rightarrow> int \<times> Z2_unordered_set_column" where
  "us_get_pivot c =
     (if us_pivotChanged c then
        (let p = (if length (us_column c) = 0 then - 1 else sint (max_element (us_column c)))
         in (p, c\<lparr>us_pivot := p, us_pivotChanged := False\<rparr>))
      else (us_pivot c, c))"

definition us_clear :: "Z2_unordered_set_column \<Rightarrow> Z2_unordered_set_column" where
  "us_clear c = c\<lparr>us_column := [], us_pivot := - 1, us_pivotChanged := False\<rparr>"

definition us_clear_row :: "Z2_unordered_set_column \<Rightarrow> 32 word \<Rightarrow> Z2_unordered_set_column" where
  "us_clear_row c v =
     (let c1 = c\<lparr>us_column := removeAll v (us_column c)\<rparr>
      in if sint v = us_pivot c1 then c1\<lparr>us_pivotChanged := True\<rparr> else c1)"

text \<open>
  \<open>reorder\<close> fills a new set with \<open>valueMap.at(v)\<close>, which throws on an index past the end
  of the vector, and only then swaps it in.
\<close>

fun us_reorder_loop :: "32 word list \<Rightarrow> 32 word list \<Rightarrow> 32 word list \<Rightarrow> 32 word list option" where
  "us_reorder_loop valueMap [] newSet = Some newSet"
| "us_reorder_loop valueMap (v # vs) newSet =
     (if unat v < length valueMap then
        (let w = valueMap ! unat v
         in us_reorder_loop valueMap vs (if w \<in> set newSet then newSet else newSet @ [w]))
      else None)"

definition us_reorder ::
  "Z2_unordered_set_column \<Rightarrow> 32 word list \<Rightarrow> (unit, Z2_unordered_set_column) outcome" where
  "us_reorder c valueMap =
     (case us_reorder_loop valueMap (us_column c) [] of
        None \<Rightarrow> Throws OutOfRange c
      | Some newSet \<Rightarrow> Returns () (c\<lparr>us_column := newSet, us_pivotChanged := True\<rparr>))"

text \<open>\<open>add\<close>, for a source column that is another object than the target.\<close>

fun us_add_loop :: "32 word list \<Rightarrow> Z2_unordered_set_column \<Rightarrow> Z2_unordered_set_column" where
  "us_add_loop [] c = c"
| "us_add_loop (v # vs) c =
     us_add_loop vs
       (if v \<in> set (us_column c) then
          (let c1 = c\<lparr>us_column := removeAll v (us_column c)\<rparr>
           in if sint v = us_pivot c1 then c1\<lparr>us_pivotChanged := True\<rparr> else c1)
        else
          (let c1 = c\<lparr>us_column := us_column c @ [v]\<rparr>
           in if sint v > us_pivot c1 then c1\<lparr>us_pivot := sint v, us_pivotChanged := False\<rparr>
              else c1))"

definition us_add :: "Z2_unordered_set_column \<Rightarrow> Z2_unordered_set_column \<Rightarrow> Z2_unordered_set_column" where
  "us_add c source = us_add_loop (us_column source) c"

section \<open>Naive_vector_column (Persistence_matrix/columns/naive_vector_column.h)\<close>

text \<open>
  The compile-time options of \<open>Master_matrix\<close> that the column branches on with
  \<open>if constexpr\<close>, and the characteristic of the field. Row access is switched off
  (\<open>has_row_access = false\<close>), so the \<open>ra_opt\<close> calls of the source are no-ops. A chain
  column is one with \<open>isNonBasic && !is_of_boundary_type\<close>.
\<close>

record Master_matrix =
  is_z2 :: bool
  isNonBasic :: bool
  is_of_boundary_type :: bool
  characteristic :: nat

definition is_chain :: "Master_matrix \<Rightarrow> bool" where
  "is_chain M = (isNonBasic M \<and> \<not> is_of_boundary_type M)"

text \<open>
  Modelled from the spec: the class \<open>Field_operators\<close> is not among the sources. The spec
  gives a field element as a value in \<open>{0,...,p-1}\<close> with modular arithmetic, kept
  normalised, the in-place sum and product, and the fused \<open>x \<leftarrow> c * x + y\<close>. The first
  argument of each in-place operation is the reference that is written; the function
  returns what is stored there. \<open>multiply_and_add_inplace_back a v e\<close> writes its last
  argument: \<open>e \<leftarrow> a * v + e\<close>.
\<close>

definition get_value :: "Master_matrix \<Rightarrow> nat \<Rightarrow> nat" where
  "get_value M v = v mod characteristic M"

definition add_inplace :: "Master_matrix \<Rightarrow> nat \<Rightarrow> nat \<Rightarrow> nat" where
  "add_inplace M e1 e2 = (e1 + e2) mod characteristic M"

definition multiply_inplace :: "Master_matrix \<Rightarrow> nat \<Rightarrow> nat \<Rightarrow> nat" where
  "multiply_inplace M e v = (e * v) mod characteristic M"

definition multiply_and_add_inplace_front :: "Master_matrix \<Rightarrow> nat \<Rightarrow> nat \<Rightarrow> nat \<Rightarrow> nat" where
  "multiply_and_add_inplace_front M e v a = (e * v + a) mod characteristic M"

definition multiply_and_add_inplace_back :: "Master_matrix \<Rightarrow> nat \<Rightarrow> nat \<Rightarrow> nat \<Rightarrow> nat" where
  "multiply_and_add_inplace_back M a v e = (a * v + e) mod characteristic M"

text \<open>
  A cell: its row index and its field element. Over \<open>Z/2\<close> a cell of the source stores no
  element and counts as \<open>1\<close>; the model gives it the element \<open>1\<close>.
\<close>

record Cell =
  row_index :: nat
  element :: nat

text \<open>
  The column: the vector \<open>column_\<close> of the cells it owns, and the attributes of the
  \<open>chain_opt\<close> and \<open>dim_opt\<close> bases. Modelled from the spec: \<open>Chain_column_option\<close> and
  \<open>Column_dimension_option\<close> are not among the sources; they hold the stored pivot
  (\<open>-1\<close> for none) and the dimension, and \<open>swap_pivots\<close>, \<open>swap_dimension\<close> exchange them
  with those of another column.
\<close>

record Naive_vector_column =
  column :: "Cell list"
  pivot :: int
  dim :: int

text \<open>
  A private member \<open>_name\<close> of the source is \<open>priv_name\<close>. \<open>_update_cell\<close> and
  \<open>_insert_cell\<close> construct the new cell that is stored at a position or pushed back.
\<close>

definition priv_new_cell :: "Master_matrix \<Rightarrow> nat \<Rightarrow> nat \<Rightarrow> Cell" where
  "priv_new_cell M val rowIndex =
     (if is_z2 M then \<lparr>row_index = rowIndex, element = 1\<rparr>
      else \<lparr>row_index = rowIndex, element = val\<rparr>)"

definition priv_copy_cell :: "Master_matrix \<Rightarrow> Cell \<Rightarrow> Cell" where
  "priv_copy_cell M cell = priv_new_cell M (element cell) (row_index cell)"

text \<open>
  The constructors from a range of \<open>(row, coefficient)\<close> pairs; over \<open>Z/2\<close> the range holds
  plain row indices and the second components are not read. The first is the constructor
  without a dimension (not available for chain columns), the second the one with it.
\<close>

definition boundary_cells :: "Master_matrix \<Rightarrow> (nat \<times> nat) list \<Rightarrow> Cell list" where
  "boundary_cells M nonZeroRowIndices =
     map (\<lambda>p. priv_new_cell M (get_value M (snd p)) (fst p)) nonZeroRowIndices"

definition Naive_vector_column_default :: Naive_vector_column where
  "Naive_vector_column_default = \<lparr>column = [], pivot = - 1, dim = 0\<rparr>"

definition Naive_vector_column_of :: "Master_matrix \<Rightarrow> (nat \<times> nat) list \<Rightarrow> Naive_vector_column" where
  "Naive_vector_column_of M nonZeroRowIndices =
     \<lparr>column = boundary_cells M nonZeroRowIndices,
      pivot = - 1,
      dim = (if length nonZeroRowIndices = 0 then 0 else int (length nonZeroRowIndices) - 1)\<rparr>"

definition Naive_vector_column_of_dim ::
  "Master_matrix \<Rightarrow> (nat \<times> nat) list \<Rightarrow> int \<Rightarrow> Naive_vector_column" where
  "Naive_vector_column_of_dim M nonZeroRowIndices dimension =
     \<lparr>column = boundary_cells M nonZeroRowIndices,
      pivot = (if nonZeroRowIndices = [] then - 1 else int (fst (last nonZeroRowIndices))),
      dim = dimension\<rparr>"

text \<open>
  \<open>get_content\<close>: the loop writes the cells into the zero-filled container until the first
  row that does not fit.
\<close>

fun get_content_loop :: "Master_matrix \<Rightarrow> Cell list \<Rightarrow> nat list \<Rightarrow> nat list" where
  "get_content_loop M [] container = container"
| "get_content_loop M (c # cs) container =
     (if row_index c < length container then
        get_content_loop M cs (container[row_index c := (if is_z2 M then 1 else element c)])
      else container)"

definition get_content :: "Master_matrix \<Rightarrow> Naive_vector_column \<Rightarrow> int \<Rightarrow> nat list" where
  "get_content M this columnLength =
     (if columnLength < 0 \<and> length (column this) > 0 then
        get_content_loop M (column this)
          (replicate (row_index (last (column this)) + 1) 0)
      else if columnLength < 0 then []
      else get_content_loop M (column this) (replicate (nat columnLength) 0))"

text \<open>
  \<open>is_non_zero\<close> is \<open>std::binary_search\<close> on the cells with the order of the rows: the lower
  bound of the row by bisection of the range \<open>[first, first + len)\<close>, which goes right when
  the row in the middle is smaller, and then the test that the cell found is there and its
  row is not larger. On cells that are not sorted by row the search can miss a row.
\<close>

fun lower_bound :: "Cell list \<Rightarrow> nat \<Rightarrow> nat \<Rightarrow> nat \<Rightarrow> nat" where
  "lower_bound cells rowIndex first len =
     (if len = 0 then first
      else if row_index (cells ! (first + len div 2)) < rowIndex
           then lower_bound cells rowIndex (first + len div 2 + 1) (len - len div 2 - 1)
           else lower_bound cells rowIndex first (len div 2))"

declare lower_bound.simps [simp del]

definition binary_search :: "Cell list \<Rightarrow> nat \<Rightarrow> bool" where
  "binary_search cells rowIndex =
     (let i = lower_bound cells rowIndex 0 (length cells)
      in i \<noteq> length cells \<and> \<not> rowIndex < row_index (cells ! i))"

definition is_non_zero :: "Naive_vector_column \<Rightarrow> nat \<Rightarrow> bool" where
  "is_non_zero this rowIndex = binary_search (column this) rowIndex"

definition is_empty :: "Naive_vector_column \<Rightarrow> bool" where
  "is_empty this = (column this = [])"

definition clear :: "Naive_vector_column \<Rightarrow> Naive_vector_column" where
  "clear this = this\<lparr>column := []\<rparr>"

text \<open>\<open>clear(rowIndex)\<close> erases the first cell of that row, if there is one.\<close>

fun erase_row :: "nat \<Rightarrow> Cell list \<Rightarrow> Cell list" where
  "erase_row rowIndex [] = []"
| "erase_row rowIndex (c # cs) =
     (if row_index c \<noteq> rowIndex then c # erase_row rowIndex cs else cs)"

definition clear_row :: "Naive_vector_column \<Rightarrow> nat \<Rightarrow> Naive_vector_column" where
  "clear_row this rowIndex = this\<lparr>column := erase_row rowIndex (column this)\<rparr>"

text \<open>
  \<open>reorder\<close> rewrites the row of one cell after the other with \<open>valueMap.at\<close>, which throws
  on a row the map does not have, and sorts the cells by row at the end. The loop returns
  the cells as far as they were rewritten and whether it came to the end. (\<open>std::sort\<close>
  is not stable; on cells of different rows every sort gives the same result.)
\<close>

fun reorder_loop :: "(nat \<rightharpoonup> nat) \<Rightarrow> Cell list \<Rightarrow> Cell list \<times> bool" where
  "reorder_loop valueMap [] = ([], True)"
| "reorder_loop valueMap (c # cs) =
     (case valueMap (row_index c) of
        None \<Rightarrow> (c # cs, False)
      | Some r \<Rightarrow>
          (case reorder_loop valueMap cs of (cs', ok) \<Rightarrow> (c\<lparr>row_index := r\<rparr> # cs', ok)))"

definition reorder ::
  "(nat \<rightharpoonup> nat) \<Rightarrow> Naive_vector_column \<Rightarrow> (unit, Naive_vector_column) outcome" where
  "reorder valueMap this =
     (case reorder_loop valueMap (column this) of
        (cs, False) \<Rightarrow> Throws OutOfRange (this\<lparr>column := cs\<rparr>)
      | (cs, True) \<Rightarrow> Returns () (this\<lparr>column := sort_key row_index cs\<rparr>))"

definition get_pivot :: "Master_matrix \<Rightarrow> Naive_vector_column \<Rightarrow> int" where
  "get_pivot M this =
     (if is_of_boundary_type M then
        (if column this = [] then - 1 else int (row_index (last (column this))))
      else pivot this)"

text \<open>
  The merge loop of \<open>_add\<close> on the cells of the target and of the source that are still to
  be read. It returns \<open>newColumn\<close> and \<open>pivotIsZeroed\<close>; \<open>pv\<close> is the stored pivot of the
  target. When one side is used up the rest of the other is appended: new cells for the
  source, the target's own cells for the target.
\<close>

fun add_loop :: "Master_matrix \<Rightarrow> int \<Rightarrow> Cell list \<Rightarrow> Cell list \<Rightarrow> Cell list \<times> bool" where
  "add_loop M pv [] ss = (map (priv_copy_cell M) ss, False)"
| "add_loop M pv (t # ts) [] = (t # ts, False)"
| "add_loop M pv (t # ts) (s # ss) =
     (if row_index t < row_index s then
        (case add_loop M pv ts (s # ss) of (new, z) \<Rightarrow> (t # new, z))
      else if row_index t > row_index s then
        (case add_loop M pv (t # ts) ss of (new, z) \<Rightarrow> (priv_copy_cell M s # new, z))
      else if is_z2 M then
        (case add_loop M pv ts ss of
           (new, z) \<Rightarrow> (new, z \<or> (is_chain M \<and> int (row_index t) = pv)))
      else
        (let e = add_inplace M (element t) (element s) in
         if e = 0 then
           (case add_loop M pv ts ss of
              (new, z) \<Rightarrow> (new, z \<or> (is_chain M \<and> int (row_index t) = pv)))
         else
           (case add_loop M pv ts ss of (new, z) \<Rightarrow> (t\<lparr>element := e\<rparr> # new, z))))"

text \<open>
  \<open>_add\<close> on the cells of the target (with its stored pivot) and of a source that is
  another object: the new cells of the target and the returned flag.
\<close>

definition priv_add :: "Master_matrix \<Rightarrow> int \<Rightarrow> Cell list \<Rightarrow> Cell list \<Rightarrow> Cell list \<times> bool" where
  "priv_add M pv target source =
     (if source = [] then (target, False)
      else if target = [] then (map (priv_copy_cell M) source, True)
      else add_loop M pv target source)"

text \<open>The merge loop of \<open>_multiply_target_and_add\<close>.\<close>

fun multiply_target_and_add_loop ::
  "Master_matrix \<Rightarrow> nat \<Rightarrow> int \<Rightarrow> Cell list \<Rightarrow> Cell list \<Rightarrow> Cell list \<times> bool" where
  "multiply_target_and_add_loop M val pv [] ss =
     (map (\<lambda>s. priv_new_cell M (element s) (row_index s)) ss, False)"
| "multiply_target_and_add_loop M val pv (t # ts) [] =
     (map (\<lambda>c. c\<lparr>element := multiply_inplace M (element c) val\<rparr>) (t # ts), False)"
| "multiply_target_and_add_loop M val pv (t # ts) (s # ss) =
     (if row_index t < row_index s then
        (case multiply_target_and_add_loop M val pv ts (s # ss) of
           (new, z) \<Rightarrow> (t\<lparr>element := multiply_inplace M (element t) val\<rparr> # new, z))
      else if row_index t > row_index s then
        (case multiply_target_and_add_loop M val pv (t # ts) ss of
           (new, z) \<Rightarrow> (priv_new_cell M (element s) (row_index s) # new, z))
      else
        (let e = multiply_and_add_inplace_front M (element t) val (element s) in
         if e = 0 then
           (case multiply_target_and_add_loop M val pv ts ss of
              (new, z) \<Rightarrow> (new, z \<or> (is_chain M \<and> int (row_index t) = pv)))
         else
           (case multiply_target_and_add_loop M val pv ts ss of
              (new, z) \<Rightarrow> (t\<lparr>element := e\<rparr> # new, z))))"

text \<open>
  \<open>_multiply_target_and_add\<close>: a chain column throws on the coefficient \<open>0\<close> before it
  touches anything; any other column is cleared by it. The state of an outcome is the
  cell list of the target.
\<close>

definition priv_multiply_target_and_add ::
  "Master_matrix \<Rightarrow> nat \<Rightarrow> int \<Rightarrow> Cell list \<Rightarrow> Cell list \<Rightarrow> (bool, Cell list) outcome" where
  "priv_multiply_target_and_add M val pv target source =
     (if val = 0 \<and> is_chain M then Throws InvalidArgument target
      else
        (let target1 = (if val = 0 then [] else target) in
         if target1 = [] then Returns True (map (priv_copy_cell M) source)
         else
           (case multiply_target_and_add_loop M val pv target1 source of
              (new, z) \<Rightarrow> Returns z new)))"

text \<open>The merge loop of \<open>_multiply_source_and_add\<close> and the function itself.\<close>

fun multiply_source_and_add_loop ::
  "Master_matrix \<Rightarrow> nat \<Rightarrow> int \<Rightarrow> Cell list \<Rightarrow> Cell list \<Rightarrow> Cell list \<times> bool" where
  "multiply_source_and_add_loop M val pv [] ss =
     (map (\<lambda>s. (priv_new_cell M (element s) (row_index s))
                  \<lparr>element := multiply_inplace M (element s) val\<rparr>) ss, False)"
| "multiply_source_and_add_loop M val pv (t # ts) [] = (t # ts, False)"
| "multiply_source_and_add_loop M val pv (t # ts) (s # ss) =
     (if row_index t < row_index s then
        (case multiply_source_and_add_loop M val pv ts (s # ss) of (new, z) \<Rightarrow> (t # new, z))
      else if row_index t > row_index s then
        (case multiply_source_and_add_loop M val pv (t # ts) ss of
           (new, z) \<Rightarrow>
             ((priv_new_cell M (element s) (row_index s))
                \<lparr>element := multiply_inplace M (element s) val\<rparr> # new, z))
      else
        (let e = multiply_and_add_inplace_back M (element s) val (element t) in
         if e = 0 then
           (case multiply_source_and_add_loop M val pv ts ss of
              (new, z) \<Rightarrow> (new, z \<or> (is_chain M \<and> int (row_index t) = pv)))
         else
           (case multiply_source_and_add_loop M val pv ts ss of
              (new, z) \<Rightarrow> (t\<lparr>element := e\<rparr> # new, z))))"

definition priv_multiply_source_and_add ::
  "Master_matrix \<Rightarrow> int \<Rightarrow> Cell list \<Rightarrow> Cell list \<Rightarrow> nat \<Rightarrow> Cell list \<times> bool" where
  "priv_multiply_source_and_add M pv target source val =
     (if val = 0 \<or> source = [] then (target, False)
      else multiply_source_and_add_loop M val pv target source)"

text \<open>
  The public operations. Those that take a \<open>Naive_vector_column&\<close> return the target and
  the source, since a chain column exchanges pivot and dimension with its source; those
  that take a constant range of cells (not available for chain columns) return the target.
\<close>

definition swap_pivots_and_dimension ::
  "Naive_vector_column \<Rightarrow> Naive_vector_column \<Rightarrow> Naive_vector_column \<times> Naive_vector_column" where
  "swap_pivots_and_dimension this other =
     (this\<lparr>pivot := pivot other, dim := dim other\<rparr>,
      other\<lparr>pivot := pivot this, dim := dim this\<rparr>)"

definition plus_eq_range :: "Master_matrix \<Rightarrow> Naive_vector_column \<Rightarrow> Cell list \<Rightarrow> Naive_vector_column" where
  "plus_eq_range M this source =
     this\<lparr>column := fst (priv_add M (pivot this) (column this) source)\<rparr>"

definition plus_eq ::
  "Master_matrix \<Rightarrow> Naive_vector_column \<Rightarrow> Naive_vector_column
    \<Rightarrow> Naive_vector_column \<times> Naive_vector_column" where
  "plus_eq M this other =
     (case priv_add M (pivot this) (column this) (column other) of
        (new, z) \<Rightarrow>
          if is_chain M \<and> z then swap_pivots_and_dimension (this\<lparr>column := new\<rparr>) other
          else (this\<lparr>column := new\<rparr>, other))"

definition times_eq ::
  "Master_matrix \<Rightarrow> Naive_vector_column \<Rightarrow> nat \<Rightarrow> (unit, Naive_vector_column) outcome" where
  "times_eq M this v =
     (if is_z2 M then
        (if v mod 2 = 0 then
           (if is_chain M then Throws InvalidArgument this else Returns () (clear this))
         else Returns () this)
      else
        (let val = get_value M v in
         if val = 0 then
           (if is_chain M then Throws InvalidArgument this else Returns () (clear this))
         else if val = 1 then Returns () this
         else Returns ()
           (this\<lparr>column :=
              map (\<lambda>c. c\<lparr>element := multiply_inplace M (element c) val\<rparr>) (column this)\<rparr>)))"

definition multiply_target_and_add_range ::
  "Master_matrix \<Rightarrow> nat \<Rightarrow> Naive_vector_column \<Rightarrow> Cell list \<Rightarrow> (unit, Naive_vector_column) outcome" where
  "multiply_target_and_add_range M val this source =
     (if is_z2 M then
        (if val \<noteq> 0 then
           Returns () (this\<lparr>column := fst (priv_add M (pivot this) (column this) source)\<rparr>)
         else
           Returns () (this\<lparr>column := fst (priv_add M (pivot this) [] source)\<rparr>))
      else
        (case priv_multiply_target_and_add M val (pivot this) (column this) source of
           Throws e cs \<Rightarrow> Throws e (this\<lparr>column := cs\<rparr>)
         | Returns z cs \<Rightarrow> Returns () (this\<lparr>column := cs\<rparr>)))"

definition multiply_target_and_add ::
  "Master_matrix \<Rightarrow> nat \<Rightarrow> Naive_vector_column \<Rightarrow> Naive_vector_column
    \<Rightarrow> (unit, Naive_vector_column \<times> Naive_vector_column) outcome" where
  "multiply_target_and_add M val this other =
     (if is_chain M then
        (if is_z2 M then
           (if val \<noteq> 0 then
              (case priv_add M (pivot this) (column this) (column other) of
                 (new, z) \<Rightarrow>
                   Returns ()
                     (if z then swap_pivots_and_dimension (this\<lparr>column := new\<rparr>) other
                      else (this\<lparr>column := new\<rparr>, other)))
            else Throws InvalidArgument (this, other))
         else
           (case priv_multiply_target_and_add M val (pivot this) (column this) (column other) of
              Throws e cs \<Rightarrow> Throws e (this\<lparr>column := cs\<rparr>, other)
            | Returns z cs \<Rightarrow>
                Returns ()
                  (if z then swap_pivots_and_dimension (this\<lparr>column := cs\<rparr>) other
                   else (this\<lparr>column := cs\<rparr>, other))))
      else
        (case multiply_target_and_add_range M val this (column other) of
           Throws e this' \<Rightarrow> Throws e (this', other)
         | Returns _ this' \<Rightarrow> Returns () (this', other)))"

definition multiply_source_and_add_range ::
  "Master_matrix \<Rightarrow> Naive_vector_column \<Rightarrow> Cell list \<Rightarrow> nat \<Rightarrow> Naive_vector_column" where
  "multiply_source_and_add_range M this source val =
     (if is_z2 M then
        (if val \<noteq> 0 then this\<lparr>column := fst (priv_add M (pivot this) (column this) source)\<rparr>
         else this)
      else
        this\<lparr>column := fst (priv_multiply_source_and_add M (pivot this) (column this) source val)\<rparr>)"

definition multiply_source_and_add ::
  "Master_matrix \<Rightarrow> Naive_vector_column \<Rightarrow> Naive_vector_column \<Rightarrow> nat
    \<Rightarrow> Naive_vector_column \<times> Naive_vector_column" where
  "multiply_source_and_add M this other val =
     (if is_chain M then
        (if is_z2 M then
           (if val \<noteq> 0 then plus_eq M this other else (this, other))
         else
           (case priv_multiply_source_and_add M (pivot this) (column this) (column other) val of
              (new, z) \<Rightarrow>
                if z then swap_pivots_and_dimension (this\<lparr>column := new\<rparr>) other
                else (this\<lparr>column := new\<rparr>, other)))
      else (multiply_source_and_add_range M this (column other) val, other))"

text \<open>
  The comparison \<open>operator<\<close> of two different column objects (on the same object it is
  false, as this function is on equal lists), which orders the dictionary of the
  compressed matrix; two columns are equivalent for it when neither is below the other.
\<close>

fun column_less :: "Master_matrix \<Rightarrow> Cell list \<Rightarrow> Cell list \<Rightarrow> bool" where
  "column_less M [] c2 = (c2 \<noteq> [])"
| "column_less M (a # c1) [] = False"
| "column_less M (a # c1) (b # c2) =
     (if row_index a \<noteq> row_index b then row_index a < row_index b
      else if \<not> is_z2 M \<and> element a \<noteq> element b then element a < element b
      else column_less M c1 c2)"

definition column_equiv :: "Master_matrix \<Rightarrow> Cell list \<Rightarrow> Cell list \<Rightarrow> bool" where
  "column_equiv M c1 c2 = (\<not> column_less M c1 c2 \<and> \<not> column_less M c2 c1)"

text \<open>
  The well-formedness of a column over a field: the rows of its cells increase strictly and
  every element is a non-zero, normalised field value. The characteristic has to be a
  prime, and \<open>2\<close> for the \<open>Z/2\<close> option. \<open>entry\<close> reads the coefficient of a row off the
  cells, as \<open>get_content\<close> writes it.
\<close>

definition is_prime :: "nat \<Rightarrow> bool" where
  "is_prime p = (1 < p \<and> list_all (\<lambda>d. \<not> d dvd p) [2..<p])"

definition field_ok :: "Master_matrix \<Rightarrow> bool" where
  "field_ok M = (is_prime (characteristic M) \<and> (is_z2 M \<longrightarrow> characteristic M = 2))"

definition cell_ok :: "Master_matrix \<Rightarrow> Cell \<Rightarrow> bool" where
  "cell_ok M c = (0 < element c \<and> element c < characteristic M)"

definition well_formed :: "Master_matrix \<Rightarrow> Cell list \<Rightarrow> bool" where
  "well_formed M cs = (sorted_wrt (<) (map row_index cs) \<and> list_all (cell_ok M) cs)"

fun entry :: "Master_matrix \<Rightarrow> Cell list \<Rightarrow> nat \<Rightarrow> nat" where
  "entry M [] i = 0"
| "entry M (c # cs) i =
     (if row_index c = i then (if is_z2 M then 1 else element c) else entry M cs i)"

text \<open>The state an outcome leaves behind, returned or thrown.\<close>

fun state_of :: "('r, 's) outcome \<Rightarrow> 's" where
  "state_of (Returns r s) = s"
| "state_of (Throws e s) = s"

text \<open>Whether a call returned, and what it returned.\<close>

fun returns :: "('r, 's) outcome \<Rightarrow> bool" where
  "returns (Returns r s) = True"
| "returns (Throws e s) = False"

fun result_of :: "('r, 's) outcome \<Rightarrow> 'r option" where
  "result_of (Returns r s) = Some r"
| "result_of (Throws e s) = None"

text \<open>Four option bundles to run the columns on: base and chain columns over \<open>Z/5\<close> and \<open>Z/2\<close>.\<close>

definition Z5_options :: Master_matrix where
  "Z5_options = \<lparr>is_z2 = False, isNonBasic = False, is_of_boundary_type = True, characteristic = 5\<rparr>"

definition Z5_chain_options :: Master_matrix where
  "Z5_chain_options = \<lparr>is_z2 = False, isNonBasic = True, is_of_boundary_type = False, characteristic = 5\<rparr>"

definition Z2_options :: Master_matrix where
  "Z2_options = \<lparr>is_z2 = True, isNonBasic = False, is_of_boundary_type = True, characteristic = 2\<rparr>"

definition Z2_chain_options :: Master_matrix where
  "Z2_chain_options = \<lparr>is_z2 = True, isNonBasic = True, is_of_boundary_type = False, characteristic = 2\<rparr>"

section \<open>Vector_chain_column (column_types/chain_columns/chain_vector_column.h)\<close>

text \<open>
  The chain column of the earlier column family: the cells of its base class
  \<open>Vector_column\<close>, the stored pivot and the paired column. The dictionary
  \<open>pivotToColumnIndex_\<close> is shared by the columns of a matrix through a pointer; it is
  passed to the operation and returned by it. Its \<open>at\<close> throws on a key it does not hold.
  The base class is not among the sources: its \<open>operator+=\<close> is the parameter \<open>base_plus\<close>
  (target cells, source cells, new target cells), and its \<open>is_non_zero\<close> tells whether a
  cell of the row is stored.
\<close>

record Vector_chain_column =
  vc_column :: "Cell list"
  vc_pivot :: int
  vc_pairedColumn :: int

definition vc_is_non_zero :: "Vector_chain_column \<Rightarrow> int \<Rightarrow> bool" where
  "vc_is_non_zero this rowIndex = (rowIndex \<in> set (map (\<lambda>c. int (row_index c)) (vc_column this)))"

definition vc_plus_eq ::
  "(Cell list \<Rightarrow> Cell list \<Rightarrow> Cell list) \<Rightarrow> (int \<rightharpoonup> nat)
    \<Rightarrow> Vector_chain_column \<Rightarrow> Vector_chain_column
    \<Rightarrow> (unit, (int \<rightharpoonup> nat) \<times> Vector_chain_column \<times> Vector_chain_column) outcome" where
  "vc_plus_eq base_plus pivotToColumnIndex this col =
     (let this1 = this\<lparr>vc_column := base_plus (vc_column this) (vc_column col)\<rparr> in
      if \<not> vc_is_non_zero this1 (vc_pivot this1) then
        (case (pivotToColumnIndex (vc_pivot this1), pivotToColumnIndex (vc_pivot col)) of
           (Some i, Some j) \<Rightarrow>
             Returns ()
               (pivotToColumnIndex(vc_pivot this1 \<mapsto> j, vc_pivot col \<mapsto> i),
                this1\<lparr>vc_pivot := vc_pivot col\<rparr>,
                col\<lparr>vc_pivot := vc_pivot this1\<rparr>)
         | _ \<Rightarrow> Throws OutOfRange (pivotToColumnIndex, this1, col))
      else Returns () (pivotToColumnIndex, this1, col))"

text \<open>
  Modelled from the spec: the \<open>+=\<close> of the sorted-vector column is a linear merge that adds
  field-wise, removes zero entries and keeps the order; this is the merge of
  \<open>Naive_vector_column\<close>.
\<close>

definition Vector_column_plus_eq :: "Master_matrix \<Rightarrow> Cell list \<Rightarrow> Cell list \<Rightarrow> Cell list" where
  "Vector_column_plus_eq M target source = fst (priv_add M (- 1) target source)"

section \<open>Base_matrix_with_column_compression (Persistence_matrix/base_matrix_with_column_compression.h)\<close>

text \<open>
  Modelled from the spec: \<open>boost::disjoint_sets_with_storage\<close> is not among the sources. It
  is the union-find that tracks the classes: every index starts as a class of its own
  (the storage grows on demand), \<open>find_set\<close> gives the representative of a class and
  \<open>link\<close> unites the classes of two representatives, keeping the one of higher rank and
  the second one on equal ranks, whose rank then grows. The model records for every index
  its representative and for every representative its rank; the path compression of
  \<open>find_set\<close> does not show in either.
\<close>

record disjoint_sets =
  ds_rep :: "nat \<Rightarrow> nat"
  ds_rank :: "nat \<Rightarrow> nat"

definition disjoint_sets_init :: disjoint_sets where
  "disjoint_sets_init = \<lparr>ds_rep = (\<lambda>x. x), ds_rank = (\<lambda>x. 0)\<rparr>"

definition find_set :: "disjoint_sets \<Rightarrow> nat \<Rightarrow> nat" where
  "find_set ds x = ds_rep ds x"

definition link :: "disjoint_sets \<Rightarrow> nat \<Rightarrow> nat \<Rightarrow> disjoint_sets" where
  "link ds x y =
     (let i = ds_rep ds x; j = ds_rep ds y in
      if i = j then ds
      else if ds_rank ds i > ds_rank ds j then
        ds\<lparr>ds_rep := (\<lambda>k. if ds_rep ds k = j then i else ds_rep ds k)\<rparr>
      else
        ds\<lparr>ds_rep := (\<lambda>k. if ds_rep ds k = i then j else ds_rep ds k),
           ds_rank := (if ds_rank ds i = ds_rank ds j
                       then (ds_rank ds)(j := ds_rank ds j + 1) else ds_rank ds)\<rparr>)"

text \<open>
  The column type of the matrix: the column of the master matrix with the index \<open>rep_\<close> of
  its class. Columns live in the pool \<open>columnPool_\<close> and are known by their address; a
  pointer is \<open>None\<close> (null) or \<open>Some\<close> address, and an address is never handed out twice.
  \<open>repToColumn_\<close> is the vector of pointers, \<open>columnToRep_\<close> the dictionary of the stored
  columns, kept here as the list of their addresses: it is searched by content only, with
  the order \<open>operator<\<close> of the columns.
\<close>

record Column_type =
  base :: Naive_vector_column
  rep :: nat

record Base_matrix_with_column_compression =
  columnToRep :: "nat list"
  columnClasses :: disjoint_sets
  repToColumn :: "nat option list"
  nextColumnIndex :: nat
  columnPool :: "nat \<rightharpoonup> Column_type"
  poolNext :: nat

text \<open>
  The result of \<open>get_column\<close>: the static \<open>empty_column_\<close> or the stored column at an
  address.
\<close>

datatype column_ref = empty_column | Stored nat

text \<open>
  The constructor that reserves \<open>numberOfColumns\<close> null pointers; with \<open>0\<close> it is the
  constructor of the empty matrix.
\<close>

definition Base_matrix_with_column_compression_init ::
  "nat \<Rightarrow> Base_matrix_with_column_compression" where
  "Base_matrix_with_column_compression_init numberOfColumns =
     \<lparr>columnToRep = [], columnClasses = disjoint_sets_init,
      repToColumn = replicate numberOfColumns None, nextColumnIndex = 0,
      columnPool = Map.empty, poolNext = 0\<rparr>"

definition stored_cells :: "Base_matrix_with_column_compression \<Rightarrow> nat \<Rightarrow> Cell list" where
  "stored_cells m a = (case columnPool m a of None \<Rightarrow> [] | Some col \<Rightarrow> column (base col))"

text \<open>
  \<open>columnToRep_.insert(col)\<close> gives the stored column equivalent to \<open>col\<close> if there is one
  and puts \<open>col\<close> into the dictionary otherwise; \<open>columnToRep_.erase(col)\<close> removes what is
  equivalent to \<open>col\<close>.
\<close>

definition dict_insert ::
  "Master_matrix \<Rightarrow> Base_matrix_with_column_compression \<Rightarrow> nat
    \<Rightarrow> nat \<times> Base_matrix_with_column_compression" where
  "dict_insert M m a =
     (case find (\<lambda>d. column_equiv M (stored_cells m d) (stored_cells m a)) (columnToRep m) of
        Some d \<Rightarrow> (d, m)
      | None \<Rightarrow> (a, m\<lparr>columnToRep := columnToRep m @ [a]\<rparr>))"

definition dict_erase ::
  "Master_matrix \<Rightarrow> Base_matrix_with_column_compression \<Rightarrow> nat
    \<Rightarrow> Base_matrix_with_column_compression" where
  "dict_erase M m a =
     m\<lparr>columnToRep :=
         filter (\<lambda>d. \<not> column_equiv M (stored_cells m d) (stored_cells m a)) (columnToRep m)\<rparr>"

definition priv_insert_double_column ::
  "Base_matrix_with_column_compression \<Rightarrow> nat \<Rightarrow> nat
    \<Rightarrow> (unit, Base_matrix_with_column_compression) outcome" where
  "priv_insert_double_column m columnIndex doubleIt =
     (case columnPool m doubleIt of
        None \<Rightarrow> Throws UseAfterFree m
      | Some dcol \<Rightarrow>
          (let doubleRep = rep dcol;
               m1 = m\<lparr>columnClasses := link (columnClasses m) columnIndex doubleRep\<rparr>;
               newRep = find_set (columnClasses m1) columnIndex
           in if columnIndex \<ge> length (repToColumn m1) then Throws OutOfRange m1
              else
                (case repToColumn m1 ! columnIndex of
                   None \<Rightarrow> Throws NullDeref m1
                 | Some a \<Rightarrow>
                     (let m2 = m1\<lparr>columnPool := (columnPool m1)(a := None),
                                  repToColumn := (repToColumn m1)[columnIndex := None]\<rparr>
                      in if newRep = columnIndex then
                           (if doubleRep \<ge> length (repToColumn m2) then Throws OutOfRange m2
                            else
                              Returns ()
                                (m2\<lparr>repToColumn :=
                                       (repToColumn m2)
                                         [doubleRep := repToColumn m2 ! columnIndex,
                                          columnIndex := repToColumn m2 ! doubleRep],
                                    columnPool :=
                                       (columnPool m2)(doubleIt \<mapsto> dcol\<lparr>rep := columnIndex\<rparr>)\<rparr>))
                         else Returns () m2))))"

definition priv_insert_column ::
  "Master_matrix \<Rightarrow> Base_matrix_with_column_compression \<Rightarrow> nat
    \<Rightarrow> (unit, Base_matrix_with_column_compression) outcome" where
  "priv_insert_column M m columnIndex =
     (if columnIndex \<ge> length (repToColumn m) then Throws OutOfRange m
      else
        (case repToColumn m ! columnIndex of
           None \<Rightarrow> Throws NullDeref m
         | Some a \<Rightarrow>
             (case columnPool m a of
                None \<Rightarrow> Throws UseAfterFree m
              | Some col \<Rightarrow>
                  if is_empty (base col) then
                    Returns ()
                      (m\<lparr>columnPool := (columnPool m)(a := None),
                         repToColumn := (repToColumn m)[columnIndex := None]\<rparr>)
                  else
                    (case dict_insert M
                            (m\<lparr>columnPool := (columnPool m)(a \<mapsto> col\<lparr>rep := columnIndex\<rparr>)\<rparr>) a of
                       (res, m1) \<Rightarrow>
                         (case columnPool m1 res of
                            None \<Rightarrow> Throws UseAfterFree m1
                          | Some rcol \<Rightarrow>
                              if rep rcol \<noteq> columnIndex
                              then priv_insert_double_column m1 columnIndex res
                              else Returns () m1)))))"

text \<open>
  \<open>insert_boundary\<close>: the new column is constructed in the pool (its \<open>rep_\<close> is not
  initialised; \<open>_insert_column\<close> sets it before anything reads it), its pointer is pushed
  back or stored at the next index, and \<open>_insert_column\<close> files it. \<open>insert_column\<close> is the
  same call with the default dimension \<open>-1\<close>.
\<close>

definition insert_boundary ::
  "Master_matrix \<Rightarrow> Base_matrix_with_column_compression \<Rightarrow> (nat \<times> nat) list \<Rightarrow> int
    \<Rightarrow> (unit, Base_matrix_with_column_compression) outcome" where
  "insert_boundary M m boundary dimension =
     (let d = (if dimension = - 1
               then (if length boundary = 0 then 0 else int (length boundary) - 1)
               else dimension);
          a = poolNext m;
          m1 = m\<lparr>columnPool := (columnPool m)(a \<mapsto> \<lparr>base = Naive_vector_column_of_dim M boundary d, rep = 0\<rparr>),
                 poolNext := Suc a\<rparr>
      in if length (repToColumn m1) = nextColumnIndex m1 then
           (case priv_insert_column M
                   (m1\<lparr>columnClasses := link (columnClasses m1) (nextColumnIndex m1) (nextColumnIndex m1),
                       repToColumn := repToColumn m1 @ [Some a]\<rparr>) (nextColumnIndex m1) of
              Throws e m2 \<Rightarrow> Throws e m2
            | Returns _ m2 \<Rightarrow> Returns () (m2\<lparr>nextColumnIndex := Suc (nextColumnIndex m2)\<rparr>))
         else if nextColumnIndex m1 \<ge> length (repToColumn m1) then Throws OutOfRange m1
         else
           (case priv_insert_column M
                   (m1\<lparr>repToColumn := (repToColumn m1)[nextColumnIndex m1 := Some a]\<rparr>)
                   (nextColumnIndex m1) of
              Throws e m2 \<Rightarrow> Throws e m2
            | Returns _ m2 \<Rightarrow> Returns () (m2\<lparr>nextColumnIndex := Suc (nextColumnIndex m2)\<rparr>)))"

definition insert_column ::
  "Master_matrix \<Rightarrow> Base_matrix_with_column_compression \<Rightarrow> (nat \<times> nat) list
    \<Rightarrow> (unit, Base_matrix_with_column_compression) outcome" where
  "insert_column M m col = insert_boundary M m col (- 1)"

text \<open>
  \<open>get_column\<close>, \<open>is_zero_cell\<close> and \<open>is_zero_column\<close> look the pointer of the class up and
  test it for null. An index past the end of \<open>repToColumn_\<close> is undefined behaviour,
  given here as \<open>OutOfRange\<close>.
\<close>

definition get_column ::
  "Base_matrix_with_column_compression \<Rightarrow> nat
    \<Rightarrow> (column_ref, Base_matrix_with_column_compression) outcome" where
  "get_column m columnIndex =
     (let r = find_set (columnClasses m) columnIndex in
      if r \<ge> length (repToColumn m) then Throws OutOfRange m
      else (case repToColumn m ! r of
              None \<Rightarrow> Returns empty_column m
            | Some a \<Rightarrow> Returns (Stored a) m))"

definition column_of :: "Base_matrix_with_column_compression \<Rightarrow> column_ref \<Rightarrow> Naive_vector_column" where
  "column_of m r =
     (case r of
        empty_column \<Rightarrow> Naive_vector_column_default
      | Stored a \<Rightarrow> (case columnPool m a of
                       None \<Rightarrow> Naive_vector_column_default
                     | Some col \<Rightarrow> base col))"

definition is_zero_cell ::
  "Base_matrix_with_column_compression \<Rightarrow> nat \<Rightarrow> nat
    \<Rightarrow> (bool, Base_matrix_with_column_compression) outcome" where
  "is_zero_cell m columnIndex rowIndex =
     (let r = find_set (columnClasses m) columnIndex in
      if r \<ge> length (repToColumn m) then Throws OutOfRange m
      else (case repToColumn m ! r of
              None \<Rightarrow> Returns True m
            | Some a \<Rightarrow>
                (case columnPool m a of
                   None \<Rightarrow> Throws UseAfterFree m
                 | Some col \<Rightarrow> Returns (\<not> is_non_zero (base col) rowIndex) m)))"

definition is_zero_column ::
  "Base_matrix_with_column_compression \<Rightarrow> nat
    \<Rightarrow> (bool, Base_matrix_with_column_compression) outcome" where
  "is_zero_column m columnIndex =
     (let r = find_set (columnClasses m) columnIndex in
      if r \<ge> length (repToColumn m) then Throws OutOfRange m
      else (case repToColumn m ! r of
              None \<Rightarrow> Returns True m
            | Some a \<Rightarrow>
                (case columnPool m a of
                   None \<Rightarrow> Throws UseAfterFree m
                 | Some col \<Rightarrow> Returns (is_empty (base col)) m)))"

definition get_number_of_columns :: "Base_matrix_with_column_compression \<Rightarrow> nat" where
  "get_number_of_columns m = nextColumnIndex m"

text \<open>
  \<open>add_to\<close> with a column index as source. The target is dereferenced without a test, it
  is taken out of the dictionary, added to and filed again. \<open>get_column\<close> gives a
  constant column, so that \<open>+=\<close> is the overload for a constant range of cells: the merge of
  \<open>_add\<close> and nothing else. The source is read through
  \<open>get_column\<close>; when it is the target itself, the merge of \<open>_add\<close> meets equal rows only,
  reads each cell before it changes or deletes it, and so computes what it computes on a
  copy of the cells.
\<close>

definition add_to ::
  "Master_matrix \<Rightarrow> Base_matrix_with_column_compression \<Rightarrow> nat \<Rightarrow> nat
    \<Rightarrow> (unit, Base_matrix_with_column_compression) outcome" where
  "add_to M m sourceColumn targetColumnIndex =
     (let targetRep = find_set (columnClasses m) targetColumnIndex in
      if targetRep \<ge> length (repToColumn m) then Throws OutOfRange m
      else
        (case repToColumn m ! targetRep of
           None \<Rightarrow> Throws NullDeref m
         | Some a \<Rightarrow>
             (case columnPool m a of
                None \<Rightarrow> Throws UseAfterFree m
              | Some target \<Rightarrow>
                  (let m1 = dict_erase M m a in
                   case get_column m1 sourceColumn of
                     Throws e m2 \<Rightarrow> Throws e m2
                   | Returns source m2 \<Rightarrow>
                       priv_insert_column M
                         (m2\<lparr>columnPool := (columnPool m2)
                               (a \<mapsto> target\<lparr>base := plus_eq_range M (base target)
                                                     (column (column_of m2 source))\<rparr>)\<rparr>)
                         targetRep))))"

text \<open>A sequence of calls on a matrix; it ends with the first call that does not return.\<close>

datatype matrix_call = Insert_boundary "(nat \<times> nat) list" int | Add_to nat nat

fun run_calls ::
  "Master_matrix \<Rightarrow> Base_matrix_with_column_compression \<Rightarrow> matrix_call list
    \<Rightarrow> (unit, Base_matrix_with_column_compression) outcome" where
  "run_calls M m [] = Returns () m"
| "run_calls M m (Insert_boundary boundary dimension # calls) =
     (case insert_boundary M m boundary dimension of
        Throws e m' \<Rightarrow> Throws e m'
      | Returns _ m' \<Rightarrow> run_calls M m' calls)"
| "run_calls M m (Add_to sourceColumn targetColumnIndex # calls) =
     (case add_to M m sourceColumn targetColumnIndex of
        Throws e m' \<Rightarrow> Throws e m'
      | Returns _ m' \<Rightarrow> run_calls M m' calls)"

text \<open>Which calls of a sequence are insertions.\<close>

fun is_insertion :: "matrix_call \<Rightarrow> bool" where
  "is_insertion (Insert_boundary boundary dimension) = True"
| "is_insertion (Add_to sourceColumn targetColumnIndex) = False"

subsection \<open>The invariant of the compressed matrix\<close>

text \<open>
  What the calls keep true of a matrix with \<open>N\<close> columns. The classes: the representative
  of a representative is itself, an index that is not yet a column is alone in its class,
  and the classes of the columns stay below \<open>N\<close>. The dictionary: its columns are distinct,
  alive in the pool, not empty, pairwise different in content, and each is the column that
  the pointer of its \<open>rep_\<close> gives, which is the representative of a class. The pointers:
  there are at least \<open>N\<close>, and each that is not null gives a column of the dictionary with this
  \<open>rep_\<close>. Between the two halves of \<open>insert_boundary\<close> and of \<open>add_to\<close> one column is
  pending: it is pointed to from its class \<open>r\<close> and not yet in the dictionary. The pool hands
  out addresses from \<open>poolNext\<close> on, where nothing is stored.
\<close>

definition classes_ok :: "disjoint_sets \<Rightarrow> nat \<Rightarrow> bool" where
  "classes_ok ds N \<longleftrightarrow>
     (\<forall>k. ds_rep ds (ds_rep ds k) = ds_rep ds k) \<and>
     (\<forall>k\<ge>N. ds_rep ds k = k) \<and>
     (\<forall>k<N. ds_rep ds k < N)"

definition dict_ok :: "Master_matrix \<Rightarrow> Base_matrix_with_column_compression \<Rightarrow> nat \<Rightarrow> bool" where
  "dict_ok M m N \<longleftrightarrow>
     distinct (columnToRep m) \<and>
     (\<forall>a\<in>set (columnToRep m). \<exists>col. columnPool m a = Some col \<and> column (base col) \<noteq> [] \<and>
        rep col < N \<and> repToColumn m ! rep col = Some a \<and>
        ds_rep (columnClasses m) (rep col) = rep col) \<and>
     (\<forall>a\<in>set (columnToRep m). \<forall>b\<in>set (columnToRep m).
        a \<noteq> b \<longrightarrow> \<not> column_equiv M (stored_cells m a) (stored_cells m b))"

definition slots_ok ::
  "Base_matrix_with_column_compression \<Rightarrow> nat \<Rightarrow> (nat \<times> nat) option \<Rightarrow> bool" where
  "slots_ok m N P \<longleftrightarrow>
     N \<le> length (repToColumn m) \<and>
     (\<forall>r<length (repToColumn m). \<forall>a. repToColumn m ! r = Some a \<longrightarrow>
        P = Some (r, a) \<or>
        (a \<in> set (columnToRep m) \<and> (\<exists>col. columnPool m a = Some col \<and> rep col = r)))"

definition pending_ok ::
  "Base_matrix_with_column_compression \<Rightarrow> nat \<Rightarrow> (nat \<times> nat) option \<Rightarrow> bool" where
  "pending_ok m N P \<longleftrightarrow>
     (case P of
        None \<Rightarrow> True
      | Some (r, a) \<Rightarrow> r < N \<and> repToColumn m ! r = Some a \<and> a \<notin> set (columnToRep m) \<and>
          columnPool m a \<noteq> None \<and> ds_rep (columnClasses m) r = r)"

definition inv_pending ::
  "Master_matrix \<Rightarrow> Base_matrix_with_column_compression \<Rightarrow> nat \<Rightarrow> (nat \<times> nat) option \<Rightarrow> bool" where
  "inv_pending M m N P \<longleftrightarrow>
     classes_ok (columnClasses m) N \<and> dict_ok M m N \<and> slots_ok m N P \<and> pending_ok m N P \<and>
     (\<forall>a\<ge>poolNext m. columnPool m a = None)"

definition matrix_inv :: "Master_matrix \<Rightarrow> Base_matrix_with_column_compression \<Rightarrow> bool" where
  "matrix_inv M m \<longleftrightarrow> inv_pending M m (nextColumnIndex m) None"

text \<open>
  What \<open>_insert_column\<close> has done when it returns \<open>m'\<close> for the pending column at address \<open>a\<close>
  of class \<open>r\<close>: the indices of the class read null if the cells are empty and a column
  with these cells otherwise, the other classes read what they read before, no other column
  has changed, and classes have at most been united.
\<close>

definition filed ::
  "Master_matrix \<Rightarrow> Base_matrix_with_column_compression \<Rightarrow> nat \<Rightarrow> nat \<Rightarrow> Cell list
    \<Rightarrow> Base_matrix_with_column_compression \<Rightarrow> bool" where
  "filed M m r a cells m' \<longleftrightarrow>
     nextColumnIndex m' = nextColumnIndex m \<and> poolNext m' = poolNext m \<and>
     length (repToColumn m') = length (repToColumn m) \<and>
     (\<forall>k. ds_rep (columnClasses m) k = r \<longrightarrow>
        (case repToColumn m' ! ds_rep (columnClasses m') k of
           None \<Rightarrow> cells = []
         | Some a' \<Rightarrow> columnPool m' a' \<noteq> None \<and> column_equiv M (stored_cells m' a') cells)) \<and>
     (\<forall>k. ds_rep (columnClasses m) k \<noteq> r \<longrightarrow> ds_rep (columnClasses m) k < length (repToColumn m) \<longrightarrow>
        repToColumn m' ! ds_rep (columnClasses m') k = repToColumn m ! ds_rep (columnClasses m) k) \<and>
     (\<forall>b. b \<noteq> a \<longrightarrow> stored_cells m' b = stored_cells m b) \<and>
     (\<forall>k l. ds_rep (columnClasses m) k = ds_rep (columnClasses m) l \<longrightarrow>
        ds_rep (columnClasses m') k = ds_rep (columnClasses m') l)"

section \<open>Properties of the tower converter\<close>

lemma translate_simplex_frame:
  "translate_simplex s simplex = Returns ts s1 \<Longrightarrow>
     filtrationSize s1 = filtrationSize s \<and> towerWidth s1 = towerWidth s \<and>
     outputStream s1 = outputStream s"
  by (auto simp: translate_simplex_def Let_def split: if_splits option.splits)

lemma add_insertion_Returns:
  assumes run: "add_insertion ops s simplex t sb sn = Returns (b, sb', sn') s'"
  shows "\<exists>ts s1 c1. translate_simplex s simplex = Returns ts s1 \<and>
           insert_simplex ops ts (complex s1) = (b, c1) \<and>
           (\<not> b \<longrightarrow> s' = s1\<lparr>complex := c1\<rparr>)"
proof -
  obtain ts s1 where tr: "translate_simplex s simplex = Returns ts s1"
    using run by (cases "translate_simplex s simplex") (auto simp: add_insertion_def)
  obtain ins c1 where ic: "insert_simplex ops ts (complex s1) = (ins, c1)"
    by (cases "insert_simplex ops ts (complex s1)") auto
  have b: "b = ins"
    using run tr ic
    by (cases ins)
       (auto simp: add_insertion_def Let_def split: outcome.splits option.splits prod.splits)
  have "\<not> b \<longrightarrow> s' = s1\<lparr>complex := c1\<rparr>"
    using run tr ic b by (auto simp: add_insertion_def)
  with tr ic b show ?thesis by blast
qed

text \<open>
  C10. \<open>add_insertion\<close> returns true exactly when \<open>insert_simplex\<close> of the complex
  accepted the translated simplex as new. When the complex refuses it the call returns
  false, and whenever it returns false the filtration size, the tower width and the output
  stream are what they were before the call.
\<close>

theorem add_insertion_true_iff_inserted:
  "(\<forall>ts s1. translate_simplex s simplex = Returns ts s1 \<longrightarrow>
       \<not> fst (insert_simplex ops ts (complex s1)) \<longrightarrow>
       (\<exists>s'. add_insertion ops s simplex t sb sn = Returns (False, sb, sn) s')) \<and>
   (\<forall>b sb' sn' s'. add_insertion ops s simplex t sb sn = Returns (b, sb', sn') s' \<longrightarrow>
       (\<exists>ts s1. translate_simplex s simplex = Returns ts s1 \<and>
                 b = fst (insert_simplex ops ts (complex s1))) \<and>
       (\<not> b \<longrightarrow> get_filtration_size s' = get_filtration_size s \<and>
                get_tower_width s' = get_tower_width s \<and>
                outputStream s' = outputStream s))"
proof -
  have refused: "\<exists>s'. add_insertion ops s simplex t sb sn = Returns (False, sb, sn) s'"
    if tr: "translate_simplex s simplex = Returns ts s1"
      and no: "\<not> fst (insert_simplex ops ts (complex s1))" for ts s1
  proof -
    obtain c1 where "insert_simplex ops ts (complex s1) = (False, c1)"
      using no by (cases "insert_simplex ops ts (complex s1)") auto
    then show ?thesis
      using tr by (simp add: add_insertion_def)
  qed
  have returned:
    "(\<exists>ts s1. translate_simplex s simplex = Returns ts s1 \<and>
               b = fst (insert_simplex ops ts (complex s1))) \<and>
     (\<not> b \<longrightarrow> get_filtration_size s' = get_filtration_size s \<and>
              get_tower_width s' = get_tower_width s \<and>
              outputStream s' = outputStream s)"
    if run: "add_insertion ops s simplex t sb sn = Returns (b, sb', sn') s'" for b sb' sn' s'
  proof -
    from add_insertion_Returns[OF run]
    obtain ts s1 c1 where tr: "translate_simplex s simplex = Returns ts s1"
      and ic: "insert_simplex ops ts (complex s1) = (b, c1)"
      and s': "\<not> b \<longrightarrow> s' = s1\<lparr>complex := c1\<rparr>"
      by blast
    have "b = fst (insert_simplex ops ts (complex s1))"
      using ic by simp
    moreover have "\<not> b \<longrightarrow> get_filtration_size s' = get_filtration_size s \<and>
              get_tower_width s' = get_tower_width s \<and>
              outputStream s' = outputStream s"
      using translate_simplex_frame[OF tr] s'
      by (auto simp: get_filtration_size_def get_tower_width_def)
    ultimately show ?thesis
      using tr by blast
  qed
  show ?thesis
    using refused returned by blast
qed

text \<open>
  The theorem at work: the vertex \<open>5\<close> is new to the empty complex, so its first insertion
  returns true and counts; the second one is refused and leaves the counters alone.
\<close>

theorem add_insertion_true_iff_inserted_witness:
  "add_insertion list_complex (Tower_converter_init []) [5] 1 None None
     = Returns (True, None, None)
         \<lparr>complex = [[5]], vertices = [5 \<mapsto> 5], outputStream = None,
          streamType = VERTICES, filtrationSize = 1, towerWidth = 1\<rparr> \<and>
   add_insertion list_complex
         \<lparr>complex = [[5]], vertices = [5 \<mapsto> 5], outputStream = None,
          streamType = VERTICES, filtrationSize = 1, towerWidth = 1\<rparr> [5] 2 None None
     = Returns (False, None, None)
         \<lparr>complex = [[5]], vertices = [5 \<mapsto> 5], outputStream = None,
          streamType = VERTICES, filtrationSize = 1, towerWidth = 1\<rparr> \<and>
   get_filtration_size
         \<lparr>complex = [[5::real]], vertices = [5 \<mapsto> 5::real], outputStream = None,
          streamType = VERTICES, filtrationSize = 1, towerWidth = 1\<rparr> = 1"
  using add_insertion_true_iff_inserted
          [of "\<lparr>complex = [[5]], vertices = [5 \<mapsto> 5], outputStream = None,
                 streamType = VERTICES, filtrationSize = 1, towerWidth = 1\<rparr>"
              "[5]" list_complex 2 None None]
  by (simp add: add_insertion_def translate_simplex_def stream_simplex_def list_complex_def
        Tower_converter_init_def get_filtration_size_def Let_def)


section \<open>Field arithmetic and the merge loops\<close>

lemma is_prime_gt1: "is_prime p \<Longrightarrow> 1 < p"
  by (simp add: is_prime_def)

lemma is_prime_dvd: "is_prime p \<Longrightarrow> d dvd p \<Longrightarrow> d = 1 \<or> d = p"
proof -
  assume p: "is_prime p" and d: "d dvd p"
  have "d \<le> p" using d p by (auto simp: is_prime_def intro: dvd_imp_le)
  moreover have "d \<noteq> 0" using d p by (cases "d = 0") (auto simp: is_prime_def)
  moreover have "\<not> (2 \<le> d \<and> d < p)" using p d by (auto simp: is_prime_def list_all_iff)
  ultimately show ?thesis by arith
qed

lemma is_prime_mult:
  assumes "is_prime p" "p dvd a * b"
  shows "p dvd a \<or> p dvd (b::nat)"
proof (cases "p dvd a")
  case False
  have "gcd p a dvd p" by simp
  then have "gcd p a = 1 \<or> gcd p a = p" using assms(1) is_prime_dvd by blast
  then have "gcd p a = 1" using False by (metis gcd_dvd2)
  then have "coprime p a" by (simp add: coprime_iff_gcd_eq_1)
  then show ?thesis using assms(2) by (simp add: coprime_dvd_mult_right_iff)
qed simp

lemma field_mult_nonzero:
  assumes "is_prime p" "0 < a" "a < p" "0 < b" "b < p"
  shows "(a * b) mod p \<noteq> 0"
proof
  assume "(a * b) mod p = 0"
  then have "p dvd a * b" by auto
  then have "p dvd a \<or> p dvd b" using assms(1) is_prime_mult by blast
  then show False using assms by (auto dest: dvd_imp_le)
qed

lemma entry_notin: "i \<notin> row_index ` set cs \<Longrightarrow> entry M cs i = 0"
  by (induction cs) auto

lemma row_priv_copy_cell [simp]: "row_index (priv_copy_cell M c) = row_index c"
  by (simp add: priv_copy_cell_def priv_new_cell_def)

lemma row_priv_new_cell [simp]: "row_index (priv_new_cell M v r) = r"
  by (simp add: priv_new_cell_def)

lemma merge_induct [case_names Nil1 Nil2 Less Greater Equal]:
  assumes "\<And>ss. P [] ss"
    and "\<And>t ts. P (t # ts) []"
    and "\<And>t ts s ss. row_index t < row_index s \<Longrightarrow> P ts (s # ss) \<Longrightarrow> P (t # ts) (s # ss)"
    and "\<And>t ts s ss. row_index t > row_index s \<Longrightarrow> P (t # ts) ss \<Longrightarrow> P (t # ts) (s # ss)"
    and "\<And>t ts s ss. row_index t = row_index s \<Longrightarrow> P ts ss \<Longrightarrow> P (t # ts) (s # ss)"
  shows "P ts (ss :: Cell list)"
proof (induction "length ts + length ss" arbitrary: ts ss rule: less_induct)
  case less
  show ?case
  proof (cases ts)
    case Nil
    then show ?thesis using assms(1) by simp
  next
    case (Cons t ts')
    note ts = this
    show ?thesis
    proof (cases ss)
      case Nil
      then show ?thesis using assms(2) ts by simp
    next
      case (Cons s ss')
      consider "row_index t < row_index s" | "row_index t > row_index s"
        | "row_index t = row_index s" by linarith
      then show ?thesis
      proof cases
        case 1
        then show ?thesis using assms(3) less ts Cons by simp
      next
        case 2
        then show ?thesis using assms(4) less ts Cons by simp
      next
        case 3
        then show ?thesis using assms(5) less ts Cons by simp
      qed
    qed
  qed
qed

declare add_loop.simps(3) [simp del]

lemma add_loop_Less:
  "row_index t < row_index s \<Longrightarrow>
   fst (add_loop M pv (t # ts) (s # ss)) = t # fst (add_loop M pv ts (s # ss))"
  by (simp add: add_loop.simps(3) split: prod.splits)

lemma add_loop_Greater:
  "row_index t > row_index s \<Longrightarrow>
   fst (add_loop M pv (t # ts) (s # ss)) = priv_copy_cell M s # fst (add_loop M pv (t # ts) ss)"
  by (simp add: add_loop.simps(3) split: prod.splits)

lemma add_loop_Equal:
  "row_index t = row_index s \<Longrightarrow>
   fst (add_loop M pv (t # ts) (s # ss)) =
     (if is_z2 M \<or> add_inplace M (element t) (element s) = 0 then fst (add_loop M pv ts ss)
      else t\<lparr>element := add_inplace M (element t) (element s)\<rparr> # fst (add_loop M pv ts ss))"
  by (simp add: add_loop.simps(3) Let_def split: prod.splits)

lemma add_loop_rows':
  "c \<in> set (fst (add_loop M pv ts ss)) \<Longrightarrow> row_index c \<in> row_index ` (set ts \<union> set ss)"
proof (induction ts ss arbitrary: c rule: merge_induct)
  case (Less t ts s ss)
  then show ?case by (auto simp: add_loop_Less)
next
  case (Greater t ts s ss)
  then show ?case by (auto simp: add_loop_Greater)
next
  case (Equal t ts s ss)
  then show ?case by (auto simp: add_loop_Equal split: if_splits)
qed auto

lemma add_loop_sorted:
  "sorted_wrt (<) (map row_index ts) \<Longrightarrow> sorted_wrt (<) (map row_index ss) \<Longrightarrow>
   sorted_wrt (<) (map row_index (fst (add_loop M pv ts ss)))"
proof (induction ts ss rule: merge_induct)
  case (Less t ts s ss)
  have "row_index t < row_index c" if "c \<in> set (fst (add_loop M pv ts (s # ss)))" for c
    using add_loop_rows'[OF that] Less by auto
  then show ?case using Less by (auto simp: add_loop_Less)
next
  case (Greater t ts s ss)
  have "row_index s < row_index c" if "c \<in> set (fst (add_loop M pv (t # ts) ss))" for c
    using add_loop_rows'[OF that] Greater by auto
  then show ?case using Greater by (auto simp: add_loop_Greater)
next
  case (Equal t ts s ss)
  have "row_index t < row_index c" if "c \<in> set (fst (add_loop M pv ts ss))" for c
    using add_loop_rows'[OF that] Equal by auto
  then show ?case using Equal by (auto simp: add_loop_Equal)
qed (auto simp: comp_def)

lemma cell_ok_copy: "field_ok M \<Longrightarrow> cell_ok M c \<Longrightarrow> cell_ok M (priv_copy_cell M c)"
  by (auto simp: cell_ok_def priv_copy_cell_def priv_new_cell_def field_ok_def)

lemma add_loop_cell_ok:
  "field_ok M \<Longrightarrow> list_all (cell_ok M) ts \<Longrightarrow> list_all (cell_ok M) ss \<Longrightarrow>
   list_all (cell_ok M) (fst (add_loop M pv ts ss))"
proof (induction ts ss rule: merge_induct)
  case (Equal t ts s ss)
  have "0 < characteristic M" using Equal(3) by (auto simp: field_ok_def is_prime_def)
  then show ?case
    using Equal by (auto simp: add_loop_Equal cell_ok_def add_inplace_def)
next
  case (Less t ts s ss)
  then show ?case by (auto simp: add_loop_Less)
next
  case (Greater t ts s ss)
  then show ?case by (auto simp: add_loop_Greater cell_ok_copy)
qed (auto simp: cell_ok_copy list_all_iff)

lemma well_formed_Cons:
  "well_formed M (c # cs) \<longleftrightarrow>
     cell_ok M c \<and> (\<forall>d\<in>set cs. row_index c < row_index d) \<and> well_formed M cs"
  by (auto simp: well_formed_def)

lemma entry_wf_lt: "well_formed M cs \<Longrightarrow> field_ok M \<Longrightarrow> entry M cs i < characteristic M"
  by (induction cs) (auto simp: well_formed_Cons cell_ok_def field_ok_def is_prime_def)

lemma entry_copy:
  "field_ok M \<Longrightarrow> well_formed M ss \<Longrightarrow> entry M (map (priv_copy_cell M) ss) i = entry M ss i"
  by (induction ss) (auto simp: well_formed_Cons priv_copy_cell_def priv_new_cell_def)

lemma add_loop_entry:
  "field_ok M \<Longrightarrow> well_formed M ts \<Longrightarrow> well_formed M ss \<Longrightarrow>
   entry M (fst (add_loop M pv ts ss)) i = (entry M ts i + entry M ss i) mod characteristic M"
proof (induction ts ss rule: merge_induct)
  case (Nil1 ss)
  then show ?case using entry_wf_lt[of M ss i] by (simp add: entry_copy)
next
  case (Nil2 t ts)
  then show ?case using entry_wf_lt[of M "t # ts" i] by simp
next
  case (Less t ts s ss)
  have z: "entry M (s # ss) i = 0" if "i = row_index t"
    using Less that by (intro entry_notin) (auto simp: well_formed_Cons)
  have lt: "element t < characteristic M" "is_z2 M \<Longrightarrow> characteristic M = 2"
    using Less by (auto simp: well_formed_Cons cell_ok_def field_ok_def)
  show ?case
  proof (cases "i = row_index t")
    case True
    then show ?thesis using z lt Less(1) by (simp add: add_loop_Less)
  next
    case False
    then show ?thesis using Less by (simp add: add_loop_Less well_formed_Cons)
  qed
next
  case (Greater t ts s ss)
  have z: "entry M (t # ts) i = 0" if "i = row_index s"
    using Greater that by (intro entry_notin) (auto simp: well_formed_Cons)
  have lt: "element s < characteristic M" "is_z2 M \<Longrightarrow> characteristic M = 2"
    using Greater by (auto simp: well_formed_Cons cell_ok_def field_ok_def)
  show ?case
  proof (cases "i = row_index s")
    case True
    then show ?thesis using z lt Greater(1)
      by (simp add: add_loop_Greater priv_copy_cell_def priv_new_cell_def)
  next
    case False
    have "entry M (fst (add_loop M pv (t # ts) ss)) i
        = (entry M (t # ts) i + entry M ss i) mod characteristic M"
      using Greater by (simp add: well_formed_Cons)
    then show ?thesis using False Greater(1) by (simp add: add_loop_Greater)
  qed
next
  case (Equal t ts s ss)
  have r: "entry M (fst (add_loop M pv ts ss)) i = 0" if "i = row_index t"
  proof (rule entry_notin, rule notI)
    assume "i \<in> row_index ` set (fst (add_loop M pv ts ss))"
    then obtain c where c: "c \<in> set (fst (add_loop M pv ts ss))" "row_index c = i" by auto
    from add_loop_rows'[OF c(1)] have "row_index c \<in> row_index ` (set ts \<union> set ss)" .
    then have "row_index t < row_index c"
      using Equal by (auto simp: well_formed_Cons)
    then show False using c that by simp
  qed
  have r': "entry M (fst (add_loop M pv ts ss)) i
      = (entry M ts i + entry M ss i) mod characteristic M"
    using Equal by (auto simp: well_formed_Cons)
  have e1: "is_z2 M \<Longrightarrow> characteristic M = 2" using Equal by (simp add: field_ok_def)
  show ?case
  proof (cases "i = row_index t")
    case True
    then show ?thesis
      using r Equal(1) e1 by (auto simp: add_loop_Equal add_inplace_def)
  next
    case False
    then show ?thesis
      using r' Equal(1) by (auto simp: add_loop_Equal)
  qed
qed


lemma add_loop_wf:
  "field_ok M \<Longrightarrow> well_formed M ts \<Longrightarrow> well_formed M ss \<Longrightarrow>
   well_formed M (fst (add_loop M pv ts ss))"
  by (simp add: well_formed_def add_loop_sorted add_loop_cell_ok)

declare multiply_target_and_add_loop.simps(3) [simp del]
declare multiply_source_and_add_loop.simps(3) [simp del]

lemma mta_loop_Less:
  "row_index t < row_index s \<Longrightarrow>
   fst (multiply_target_and_add_loop M val pv (t # ts) (s # ss)) =
     t\<lparr>element := multiply_inplace M (element t) val\<rparr>
       # fst (multiply_target_and_add_loop M val pv ts (s # ss))"
  by (simp add: multiply_target_and_add_loop.simps(3) split: prod.splits)

lemma mta_loop_Greater:
  "row_index t > row_index s \<Longrightarrow>
   fst (multiply_target_and_add_loop M val pv (t # ts) (s # ss)) =
     priv_new_cell M (element s) (row_index s)
       # fst (multiply_target_and_add_loop M val pv (t # ts) ss)"
  by (simp add: multiply_target_and_add_loop.simps(3) split: prod.splits)

lemma mta_loop_Equal:
  "row_index t = row_index s \<Longrightarrow>
   fst (multiply_target_and_add_loop M val pv (t # ts) (s # ss)) =
     (if multiply_and_add_inplace_front M (element t) val (element s) = 0
      then fst (multiply_target_and_add_loop M val pv ts ss)
      else t\<lparr>element := multiply_and_add_inplace_front M (element t) val (element s)\<rparr>
             # fst (multiply_target_and_add_loop M val pv ts ss))"
  by (simp add: multiply_target_and_add_loop.simps(3) Let_def split: prod.splits)

lemma mta_loop_rows:
  "c \<in> set (fst (multiply_target_and_add_loop M val pv ts ss)) \<Longrightarrow>
   row_index c \<in> row_index ` (set ts \<union> set ss)"
proof (induction ts ss arbitrary: c rule: merge_induct)
  case (Less t ts s ss)
  then show ?case by (auto simp: mta_loop_Less)
next
  case (Greater t ts s ss)
  then show ?case by (auto simp: mta_loop_Greater)
next
  case (Equal t ts s ss)
  then show ?case by (auto simp: mta_loop_Equal split: if_splits)
qed auto

lemma mta_loop_sorted:
  "sorted_wrt (<) (map row_index ts) \<Longrightarrow> sorted_wrt (<) (map row_index ss) \<Longrightarrow>
   sorted_wrt (<) (map row_index (fst (multiply_target_and_add_loop M val pv ts ss)))"
proof (induction ts ss rule: merge_induct)
  case (Less t ts s ss)
  have "row_index t < row_index c"
    if "c \<in> set (fst (multiply_target_and_add_loop M val pv ts (s # ss)))" for c
    using mta_loop_rows[OF that] Less by auto
  then show ?case using Less by (auto simp: mta_loop_Less)
next
  case (Greater t ts s ss)
  have "row_index s < row_index c"
    if "c \<in> set (fst (multiply_target_and_add_loop M val pv (t # ts) ss))" for c
    using mta_loop_rows[OF that] Greater by auto
  then show ?case using Greater by (auto simp: mta_loop_Greater)
next
  case (Equal t ts s ss)
  have "row_index t < row_index c"
    if "c \<in> set (fst (multiply_target_and_add_loop M val pv ts ss))" for c
    using mta_loop_rows[OF that] Equal by auto
  then show ?case using Equal by (auto simp: mta_loop_Equal)
qed (auto simp: comp_def)

lemma cell_ok_times:
  "field_ok M \<Longrightarrow> 0 < val \<Longrightarrow> val < characteristic M \<Longrightarrow> cell_ok M c \<Longrightarrow>
   cell_ok M (c\<lparr>element := multiply_inplace M (element c) val\<rparr>)"
  using field_mult_nonzero[of "characteristic M" "element c" val]
  by (auto simp: cell_ok_def multiply_inplace_def field_ok_def is_prime_def)

lemma cell_ok_new: "\<not> is_z2 M \<Longrightarrow> cell_ok M c \<Longrightarrow> cell_ok M (priv_new_cell M (element c) (row_index c))"
  by (simp add: cell_ok_def priv_new_cell_def)

lemma mta_loop_cell_ok:
  "field_ok M \<Longrightarrow> \<not> is_z2 M \<Longrightarrow> 0 < val \<Longrightarrow> val < characteristic M \<Longrightarrow>
   list_all (cell_ok M) ts \<Longrightarrow> list_all (cell_ok M) ss \<Longrightarrow>
   list_all (cell_ok M) (fst (multiply_target_and_add_loop M val pv ts ss))"
proof (induction ts ss rule: merge_induct)
  case (Equal t ts s ss)
  have "0 < characteristic M" using Equal by (auto simp: field_ok_def is_prime_def)
  then show ?case
    using Equal by (auto simp: mta_loop_Equal cell_ok_def multiply_and_add_inplace_front_def)
next
  case (Less t ts s ss)
  then show ?case by (auto simp: mta_loop_Less cell_ok_times)
next
  case (Greater t ts s ss)
  then show ?case by (auto simp: mta_loop_Greater cell_ok_new)
next
  case (Nil1 ss)
  then show ?case by (auto simp: list_all_iff cell_ok_new)
next
  case (Nil2 t ts)
  then show ?case by (auto simp: list_all_iff cell_ok_times)
qed

lemma entry_times:
  "\<not> is_z2 M \<Longrightarrow>
   entry M (map (\<lambda>c. c\<lparr>element := multiply_inplace M (element c) val\<rparr>) ts) i
     = (entry M ts i * val) mod characteristic M"
  by (induction ts) (auto simp: multiply_inplace_def)

lemma entry_new:
  "\<not> is_z2 M \<Longrightarrow> entry M (map (\<lambda>s. priv_new_cell M (element s) (row_index s)) ss) i = entry M ss i"
  by (induction ss) (auto simp: priv_new_cell_def)

lemma mta_loop_entry:
  "field_ok M \<Longrightarrow> \<not> is_z2 M \<Longrightarrow> well_formed M ts \<Longrightarrow> well_formed M ss \<Longrightarrow>
   entry M (fst (multiply_target_and_add_loop M val pv ts ss)) i
     = (entry M ts i * val + entry M ss i) mod characteristic M"
proof (induction ts ss rule: merge_induct)
  case (Nil1 ss)
  then show ?case using entry_wf_lt[of M ss i] by (simp add: entry_new)
next
  case (Nil2 t ts)
  then show ?case using entry_times[of M val "t # ts" i] by simp
next
  case (Less t ts s ss)
  have z: "entry M (s # ss) i = 0" if "i = row_index t"
    using Less that by (intro entry_notin) (auto simp: well_formed_Cons)
  show ?case
  proof (cases "i = row_index t")
    case True
    then show ?thesis using z Less.hyps Less.prems by (simp add: mta_loop_Less multiply_inplace_def)
  next
    case False
    then show ?thesis using Less by (simp add: mta_loop_Less well_formed_Cons)
  qed
next
  case (Greater t ts s ss)
  have z: "entry M (t # ts) i = 0" if "i = row_index s"
    using Greater that by (intro entry_notin) (auto simp: well_formed_Cons)
  have lt: "element s < characteristic M"
    using Greater by (auto simp: well_formed_Cons cell_ok_def)
  show ?case
  proof (cases "i = row_index s")
    case True
    then show ?thesis using z lt Greater.hyps Greater.prems
      by (simp add: mta_loop_Greater priv_new_cell_def)
  next
    case False
    have "entry M (fst (multiply_target_and_add_loop M val pv (t # ts) ss)) i
        = (entry M (t # ts) i * val + entry M ss i) mod characteristic M"
      using Greater by (simp add: well_formed_Cons)
    then show ?thesis using False Greater(1) by (simp add: mta_loop_Greater)
  qed
next
  case (Equal t ts s ss)
  have r: "entry M (fst (multiply_target_and_add_loop M val pv ts ss)) i = 0" if "i = row_index t"
  proof (rule entry_notin, rule notI)
    assume "i \<in> row_index ` set (fst (multiply_target_and_add_loop M val pv ts ss))"
    then obtain c where c: "c \<in> set (fst (multiply_target_and_add_loop M val pv ts ss))"
      "row_index c = i" by auto
    from mta_loop_rows[OF c(1)] have "row_index c \<in> row_index ` (set ts \<union> set ss)" .
    then have "row_index t < row_index c"
      using Equal by (auto simp: well_formed_Cons)
    then show False using c that by simp
  qed
  have r': "entry M (fst (multiply_target_and_add_loop M val pv ts ss)) i
      = (entry M ts i * val + entry M ss i) mod characteristic M"
    using Equal by (auto simp: well_formed_Cons)
  show ?case
  proof (cases "i = row_index t")
    case True
    then show ?thesis
      using r Equal.hyps Equal.prems by (auto simp: mta_loop_Equal multiply_and_add_inplace_front_def)
  next
    case False
    then show ?thesis
      using r' Equal(1) by (auto simp: mta_loop_Equal)
  qed
qed

lemma mta_loop_wf:
  "field_ok M \<Longrightarrow> \<not> is_z2 M \<Longrightarrow> 0 < val \<Longrightarrow> val < characteristic M \<Longrightarrow>
   well_formed M ts \<Longrightarrow> well_formed M ss \<Longrightarrow>
   well_formed M (fst (multiply_target_and_add_loop M val pv ts ss))"
  by (simp add: well_formed_def mta_loop_sorted mta_loop_cell_ok)


lemma msa_loop_Less:
  "row_index t < row_index s \<Longrightarrow>
   fst (multiply_source_and_add_loop M val pv (t # ts) (s # ss)) =
     t # fst (multiply_source_and_add_loop M val pv ts (s # ss))"
  by (simp add: multiply_source_and_add_loop.simps(3) split: prod.splits)

lemma msa_loop_Greater:
  "row_index t > row_index s \<Longrightarrow>
   fst (multiply_source_and_add_loop M val pv (t # ts) (s # ss)) =
     (priv_new_cell M (element s) (row_index s))\<lparr>element := multiply_inplace M (element s) val\<rparr>
       # fst (multiply_source_and_add_loop M val pv (t # ts) ss)"
  by (simp add: multiply_source_and_add_loop.simps(3) split: prod.splits)

lemma msa_loop_Equal:
  "row_index t = row_index s \<Longrightarrow>
   fst (multiply_source_and_add_loop M val pv (t # ts) (s # ss)) =
     (if multiply_and_add_inplace_back M (element s) val (element t) = 0
      then fst (multiply_source_and_add_loop M val pv ts ss)
      else t\<lparr>element := multiply_and_add_inplace_back M (element s) val (element t)\<rparr>
             # fst (multiply_source_and_add_loop M val pv ts ss))"
  by (simp add: multiply_source_and_add_loop.simps(3) Let_def split: prod.splits)

lemma msa_loop_rows:
  "c \<in> set (fst (multiply_source_and_add_loop M val pv ts ss)) \<Longrightarrow>
   row_index c \<in> row_index ` (set ts \<union> set ss)"
proof (induction ts ss arbitrary: c rule: merge_induct)
  case (Less t ts s ss)
  then show ?case by (auto simp: msa_loop_Less)
next
  case (Greater t ts s ss)
  then show ?case by (auto simp: msa_loop_Greater)
next
  case (Equal t ts s ss)
  then show ?case by (auto simp: msa_loop_Equal split: if_splits)
qed auto

lemma msa_loop_sorted:
  "sorted_wrt (<) (map row_index ts) \<Longrightarrow> sorted_wrt (<) (map row_index ss) \<Longrightarrow>
   sorted_wrt (<) (map row_index (fst (multiply_source_and_add_loop M val pv ts ss)))"
proof (induction ts ss rule: merge_induct)
  case (Less t ts s ss)
  have "row_index t < row_index c"
    if "c \<in> set (fst (multiply_source_and_add_loop M val pv ts (s # ss)))" for c
    using msa_loop_rows[OF that] Less by auto
  then show ?case using Less by (auto simp: msa_loop_Less)
next
  case (Greater t ts s ss)
  have "row_index s < row_index c"
    if "c \<in> set (fst (multiply_source_and_add_loop M val pv (t # ts) ss))" for c
    using msa_loop_rows[OF that] Greater by auto
  then show ?case using Greater by (auto simp: msa_loop_Greater)
next
  case (Equal t ts s ss)
  have "row_index t < row_index c"
    if "c \<in> set (fst (multiply_source_and_add_loop M val pv ts ss))" for c
    using msa_loop_rows[OF that] Equal by auto
  then show ?case using Equal by (auto simp: msa_loop_Equal)
qed (auto simp: comp_def)

lemma cell_ok_new_times:
  "field_ok M \<Longrightarrow> \<not> is_z2 M \<Longrightarrow> 0 < val \<Longrightarrow> val < characteristic M \<Longrightarrow> cell_ok M c \<Longrightarrow>
   cell_ok M ((priv_new_cell M (element c) (row_index c))
                \<lparr>element := multiply_inplace M (element c) val\<rparr>)"
  using cell_ok_times[of M val c] by (simp add: cell_ok_def priv_new_cell_def)

lemma msa_loop_cell_ok:
  "field_ok M \<Longrightarrow> \<not> is_z2 M \<Longrightarrow> 0 < val \<Longrightarrow> val < characteristic M \<Longrightarrow>
   list_all (cell_ok M) ts \<Longrightarrow> list_all (cell_ok M) ss \<Longrightarrow>
   list_all (cell_ok M) (fst (multiply_source_and_add_loop M val pv ts ss))"
proof (induction ts ss rule: merge_induct)
  case (Equal t ts s ss)
  have "0 < characteristic M" using Equal by (auto simp: field_ok_def is_prime_def)
  then show ?case
    using Equal by (auto simp: msa_loop_Equal cell_ok_def multiply_and_add_inplace_back_def)
next
  case (Less t ts s ss)
  then show ?case by (auto simp: msa_loop_Less)
next
  case (Greater t ts s ss)
  then show ?case by (auto simp: msa_loop_Greater cell_ok_new_times)
next
  case (Nil1 ss)
  then show ?case by (auto simp: list_all_iff cell_ok_new_times)
next
  case (Nil2 t ts)
  then show ?case by auto
qed

lemma entry_new_times:
  "\<not> is_z2 M \<Longrightarrow>
   entry M (map (\<lambda>s. (priv_new_cell M (element s) (row_index s))
                        \<lparr>element := multiply_inplace M (element s) val\<rparr>) ss) i
     = (entry M ss i * val) mod characteristic M"
  by (induction ss) (auto simp: multiply_inplace_def priv_new_cell_def)

lemma msa_loop_entry:
  "field_ok M \<Longrightarrow> \<not> is_z2 M \<Longrightarrow> well_formed M ts \<Longrightarrow> well_formed M ss \<Longrightarrow>
   entry M (fst (multiply_source_and_add_loop M val pv ts ss)) i
     = (entry M ts i + entry M ss i * val) mod characteristic M"
proof (induction ts ss rule: merge_induct)
  case (Nil1 ss)
  then show ?case by (simp add: entry_new_times)
next
  case (Nil2 t ts)
  then show ?case using entry_wf_lt[of M "t # ts" i] by simp
next
  case (Less t ts s ss)
  have z: "entry M (s # ss) i = 0" if "i = row_index t"
    using Less that by (intro entry_notin) (auto simp: well_formed_Cons)
  have lt: "element t < characteristic M"
    using Less by (auto simp: well_formed_Cons cell_ok_def)
  show ?case
  proof (cases "i = row_index t")
    case True
    then show ?thesis using z lt Less.hyps Less.prems by (simp add: msa_loop_Less)
  next
    case False
    then show ?thesis using Less by (simp add: msa_loop_Less well_formed_Cons)
  qed
next
  case (Greater t ts s ss)
  have z: "entry M (t # ts) i = 0" if "i = row_index s"
    using Greater that by (intro entry_notin) (auto simp: well_formed_Cons)
  show ?case
  proof (cases "i = row_index s")
    case True
    then show ?thesis using z Greater.hyps Greater.prems
      by (simp add: msa_loop_Greater priv_new_cell_def multiply_inplace_def)
  next
    case False
    have "entry M (fst (multiply_source_and_add_loop M val pv (t # ts) ss)) i
        = (entry M (t # ts) i + entry M ss i * val) mod characteristic M"
      using Greater by (simp add: well_formed_Cons)
    then show ?thesis using False Greater(1) by (simp add: msa_loop_Greater priv_new_cell_def)
  qed
next
  case (Equal t ts s ss)
  have r: "entry M (fst (multiply_source_and_add_loop M val pv ts ss)) i = 0" if "i = row_index t"
  proof (rule entry_notin, rule notI)
    assume "i \<in> row_index ` set (fst (multiply_source_and_add_loop M val pv ts ss))"
    then obtain c where c: "c \<in> set (fst (multiply_source_and_add_loop M val pv ts ss))"
      "row_index c = i" by auto
    from msa_loop_rows[OF c(1)] have "row_index c \<in> row_index ` (set ts \<union> set ss)" .
    then have "row_index t < row_index c"
      using Equal by (auto simp: well_formed_Cons)
    then show False using c that by simp
  qed
  have r': "entry M (fst (multiply_source_and_add_loop M val pv ts ss)) i
      = (entry M ts i + entry M ss i * val) mod characteristic M"
    using Equal by (auto simp: well_formed_Cons)
  show ?case
  proof (cases "i = row_index t")
    case True
    then show ?thesis
      using r Equal.hyps Equal.prems
      by (auto simp: msa_loop_Equal multiply_and_add_inplace_back_def add.commute)
  next
    case False
    then show ?thesis
      using r' Equal(1) by (auto simp: msa_loop_Equal)
  qed
qed

lemma msa_loop_wf:
  "field_ok M \<Longrightarrow> \<not> is_z2 M \<Longrightarrow> 0 < val \<Longrightarrow> val < characteristic M \<Longrightarrow>
   well_formed M ts \<Longrightarrow> well_formed M ss \<Longrightarrow>
   well_formed M (fst (multiply_source_and_add_loop M val pv ts ss))"
  by (simp add: well_formed_def msa_loop_sorted msa_loop_cell_ok)


lemma get_content_loop_length [simp]: "length (get_content_loop M cs cont) = length cont"
  by (induction cs arbitrary: cont) auto

lemma get_content_loop_nth:
  "sorted_wrt (<) (map row_index cs) \<Longrightarrow> i < length cont \<Longrightarrow>
   get_content_loop M cs cont ! i =
     (if i \<in> row_index ` set cs then entry M cs i else cont ! i)"
proof (induction cs arbitrary: cont)
  case Nil
  then show ?case by simp
next
  case (Cons c cs)
  show ?case
  proof (cases "row_index c < length cont")
    case True
    have "i = row_index c \<Longrightarrow> i \<notin> row_index ` set cs" using Cons.prems by auto
    then show ?thesis
      using True Cons by (auto simp: nth_list_update)
  next
    case False
    then have "i \<notin> row_index ` set (c # cs)" using Cons.prems by auto
    then show ?thesis using False by simp
  qed
qed

lemma get_content_entry:
  "sorted_wrt (<) (map row_index (column this)) \<Longrightarrow>
   get_content M this (int n) = map (entry M (column this)) [0..<n]"
  by (rule nth_equalityI)
     (auto simp: get_content_def get_content_loop_nth entry_notin)

lemma well_formed_Nil [simp]: "well_formed M []"
  by (simp add: well_formed_def)

lemma well_formed_copy:
  "field_ok M \<Longrightarrow> well_formed M ss \<Longrightarrow> well_formed M (map (priv_copy_cell M) ss)"
  by (auto simp: well_formed_def comp_def list_all_iff cell_ok_copy)

lemma priv_add_wf:
  "field_ok M \<Longrightarrow> well_formed M ts \<Longrightarrow> well_formed M ss \<Longrightarrow>
   well_formed M (fst (priv_add M pv ts ss))"
  by (simp add: priv_add_def add_loop_wf well_formed_copy)

lemma priv_add_entry:
  "field_ok M \<Longrightarrow> well_formed M ts \<Longrightarrow> well_formed M ss \<Longrightarrow>
   entry M (fst (priv_add M pv ts ss)) i = (entry M ts i + entry M ss i) mod characteristic M"
  using entry_wf_lt[of M ts i] entry_wf_lt[of M ss i]
  by (auto simp: priv_add_def add_loop_entry entry_copy)

lemma priv_multiply_target_and_add_Returns:
  assumes "field_ok M" "\<not> is_z2 M" "well_formed M ts" "well_formed M ss"
    "val < characteristic M" "\<not> (is_chain M \<and> val = 0)"
  shows "\<exists>z cs. priv_multiply_target_and_add M val pv ts ss = Returns z cs \<and>
           well_formed M cs \<and>
           (\<forall>i. entry M cs i = (val * entry M ts i + entry M ss i) mod characteristic M)"
proof (cases "val = 0 \<or> ts = []")
  case True
  then have "priv_multiply_target_and_add M val pv ts ss = Returns True (map (priv_copy_cell M) ss)"
    using assms by (auto simp: priv_multiply_target_and_add_def)
  moreover have "entry M (map (priv_copy_cell M) ss) i
      = (val * entry M ts i + entry M ss i) mod characteristic M" for i
    using True assms entry_wf_lt[of M ss i] by (auto simp: entry_copy)
  ultimately show ?thesis using assms by (auto simp: well_formed_copy)
next
  case False
  then have "priv_multiply_target_and_add M val pv ts ss
      = Returns (snd (multiply_target_and_add_loop M val pv ts ss))
                (fst (multiply_target_and_add_loop M val pv ts ss))"
    by (auto simp: priv_multiply_target_and_add_def split: prod.splits)
  then show ?thesis
    using False assms by (simp add: mta_loop_wf mta_loop_entry mult.commute)
qed

lemma priv_multiply_source_and_add_wf:
  "field_ok M \<Longrightarrow> \<not> is_z2 M \<Longrightarrow> val < characteristic M \<Longrightarrow>
   well_formed M ts \<Longrightarrow> well_formed M ss \<Longrightarrow>
   well_formed M (fst (priv_multiply_source_and_add M pv ts ss val))"
  by (auto simp: priv_multiply_source_and_add_def msa_loop_wf)

lemma well_formed_sorted: "well_formed M cs \<Longrightarrow> sorted_wrt (<) (map row_index cs)"
  by (simp add: well_formed_def)


lemma multiply_target_and_add_Returns:
  assumes "field_ok M" "well_formed M (column a)" "well_formed M (column b)"
    "val < characteristic M" "\<not> (is_chain M \<and> val = 0)"
  shows "\<exists>a' b'. multiply_target_and_add M val a b = Returns () (a', b') \<and>
           column b' = column b \<and> well_formed M (column a') \<and>
           (\<forall>i. entry M (column a') i
                  = (val * entry M (column a) i + entry M (column b) i) mod characteristic M)"
proof (cases "is_z2 M")
  case True
  then have p: "characteristic M = 2" using assms by (simp add: field_ok_def)
  show ?thesis
  proof (cases "val = 0")
    case True
    then have nc: "\<not> is_chain M" using assms by simp
    have "entry M (fst (priv_add M (pivot a) [] (column b))) i
        = (val * entry M (column a) i + entry M (column b) i) mod characteristic M" for i
      using True assms by (simp add: priv_add_entry)
    then show ?thesis
      using True nc \<open>is_z2 M\<close> assms
      by (simp add: multiply_target_and_add_def multiply_target_and_add_range_def priv_add_wf)
  next
    case False
    then have v: "val = 1" using assms p by simp
    obtain new z where pa: "priv_add M (pivot a) (column a) (column b) = (new, z)"
      by (cases "priv_add M (pivot a) (column a) (column b)") auto
    have e: "entry M new i
        = (val * entry M (column a) i + entry M (column b) i) mod characteristic M" for i
      using v assms priv_add_entry[of M "column a" "column b" "pivot a" i] pa by simp
    have wf: "well_formed M new"
      using assms priv_add_wf[of M "column a" "column b" "pivot a"] pa by simp
    show ?thesis
      using v \<open>is_z2 M\<close> e wf pa
      by (auto simp: multiply_target_and_add_def multiply_target_and_add_range_def
            swap_pivots_and_dimension_def)
  qed
next
  case False
  from priv_multiply_target_and_add_Returns[OF assms(1) False assms(2,3,4,5), of "pivot a"]
  obtain z cs where r: "priv_multiply_target_and_add M val (pivot a) (column a) (column b) = Returns z cs"
    and wf: "well_formed M cs"
    and e: "\<forall>i. entry M cs i = (val * entry M (column a) i + entry M (column b) i) mod characteristic M"
    by blast
  show ?thesis
    using False r wf e
    by (auto simp: multiply_target_and_add_def multiply_target_and_add_range_def
          swap_pivots_and_dimension_def)
qed

lemma field_ok_examples:
  "field_ok Z5_options" "field_ok Z5_chain_options" "field_ok Z2_options" "field_ok Z2_chain_options"
  by (simp_all add: field_ok_def is_prime_def Z5_options_def Z5_chain_options_def Z2_options_def
        Z2_chain_options_def)

section \<open>Multiplying the target and adding\<close>

text \<open>
  C2. For two well-formed columns \<open>a\<close> and \<open>b\<close> (two objects) over a field and a
  normalised scalar \<open>val\<close>, \<open>a.multiply_target_and_add(val, b)\<close> returns, unless \<open>a\<close> is a
  chain column and \<open>val\<close> is zero; the cells of \<open>b\<close> are unchanged, and the dense
  expansion of the new \<open>a\<close> is pointwise \<open>val * a + b\<close> in the field.
\<close>

theorem multiply_target_and_add_content:
  assumes "field_ok M" "well_formed M (column a)" "well_formed M (column b)"
    "val < characteristic M" "\<not> (is_chain M \<and> val = 0)"
  shows "\<exists>a' b'. multiply_target_and_add M val a b = Returns () (a', b') \<and>
           column b' = column b \<and>
           get_content M a' (int n) =
             map2 (\<lambda>x y. (val * x + y) mod characteristic M)
               (get_content M a (int n)) (get_content M b (int n))"
proof -
  from multiply_target_and_add_Returns[OF assms]
  obtain a' b' where r: "multiply_target_and_add M val a b = Returns () (a', b')"
    and b: "column b' = column b" and wf: "well_formed M (column a')"
    and e: "\<forall>i. entry M (column a') i
                  = (val * entry M (column a) i + entry M (column b) i) mod characteristic M"
    by blast
  have "get_content M a' (int n) =
        map2 (\<lambda>x y. (val * x + y) mod characteristic M)
          (get_content M a (int n)) (get_content M b (int n))"
    using assms(2,3) wf e
    by (simp add: get_content_entry well_formed_sorted map2_map_map)
  with r b show ?thesis by blast
qed

theorem multiply_target_and_add_content_witness:
  "field_ok Z5_options \<and>
   well_formed Z5_options [\<lparr>row_index = 0, element = 1\<rparr>, \<lparr>row_index = 2, element = 3\<rparr>] \<and>
   well_formed Z5_options [\<lparr>row_index = 0, element = 4\<rparr>, \<lparr>row_index = 1, element = 2\<rparr>] \<and>
   (3::nat) < characteristic Z5_options \<and>
   \<not> (is_chain Z5_options \<and> (3::nat) = 0) \<and>
   get_content Z5_options
     (fst (state_of (multiply_target_and_add Z5_options 3
        \<lparr>column = [\<lparr>row_index = 0, element = 1\<rparr>, \<lparr>row_index = 2, element = 3\<rparr>], pivot = - 1, dim = 1\<rparr>
        \<lparr>column = [\<lparr>row_index = 0, element = 4\<rparr>, \<lparr>row_index = 1, element = 2\<rparr>], pivot = - 1, dim = 1\<rparr>)))
     3 = [2, 2, 4]"
proof -
  let ?a = "\<lparr>column = [\<lparr>row_index = 0, element = 1\<rparr>, \<lparr>row_index = 2, element = 3\<rparr>], pivot = - 1, dim = 1\<rparr>"
  let ?b = "\<lparr>column = [\<lparr>row_index = 0, element = 4\<rparr>, \<lparr>row_index = 1, element = 2\<rparr>], pivot = - 1, dim = 1\<rparr>"
  have h1: "field_ok Z5_options" by (rule field_ok_examples)
  have h2: "well_formed Z5_options (column ?a)"
    by (simp add: well_formed_def cell_ok_def Z5_options_def)
  have h3: "well_formed Z5_options (column ?b)"
    by (simp add: well_formed_def cell_ok_def Z5_options_def)
  have h4: "(3::nat) < characteristic Z5_options" by (simp add: Z5_options_def)
  have h5: "\<not> (is_chain Z5_options \<and> (3::nat) = 0)" by simp
  from multiply_target_and_add_content[OF h1 h2 h3 h4 h5, of 3]
  obtain a' b' where r: "multiply_target_and_add Z5_options 3 ?a ?b = Returns () (a', b')"
    and c: "get_content Z5_options a' (int 3) =
             map2 (\<lambda>x y. (3 * x + y) mod characteristic Z5_options)
               (get_content Z5_options ?a (int 3)) (get_content Z5_options ?b (int 3))"
    by blast
  have rhs: "map2 (\<lambda>x y. (3 * x + y) mod characteristic Z5_options)
               (get_content Z5_options ?a (int 3)) (get_content Z5_options ?b (int 3)) = [2, 2, 4]"
    by code_simp
  have "get_content Z5_options a' 3 = [2, 2, 4]"
    using c rhs by simp
  then show ?thesis
    using h1 h2 h3 h4 h5 r by simp
qed

text \<open>
  On a chain column the coefficient zero throws: the target keeps its dense expansion \<open>[1]\<close>,
  which is not the pointwise \<open>0 * a + b = [2]\<close>.
\<close>

theorem multiply_target_and_add_chain_zero_counterexample:
  "multiply_target_and_add Z5_chain_options 0
      \<lparr>column = [\<lparr>row_index = 0, element = 1\<rparr>], pivot = 0, dim = 0\<rparr>
      \<lparr>column = [\<lparr>row_index = 0, element = 2\<rparr>], pivot = 0, dim = 0\<rparr>
    = Throws InvalidArgument
        (\<lparr>column = [\<lparr>row_index = 0, element = 1\<rparr>], pivot = 0, dim = 0\<rparr>,
         \<lparr>column = [\<lparr>row_index = 0, element = 2\<rparr>], pivot = 0, dim = 0\<rparr>) \<and>
   get_content Z5_chain_options \<lparr>column = [\<lparr>row_index = 0, element = 1\<rparr>], pivot = 0, dim = 0\<rparr> 1 = [1] \<and>
   map2 (\<lambda>x y. (0 * x + y) mod characteristic Z5_chain_options)
     (get_content Z5_chain_options \<lparr>column = [\<lparr>row_index = 0, element = 1\<rparr>], pivot = 0, dim = 0\<rparr> 1)
     (get_content Z5_chain_options \<lparr>column = [\<lparr>row_index = 0, element = 2\<rparr>], pivot = 0, dim = 0\<rparr> 1)
    = [2]"
  by (simp add: multiply_target_and_add_def priv_multiply_target_and_add_def is_chain_def
        Z5_chain_options_def get_content_def)

section \<open>A chain column multiplied by zero\<close>

text \<open>
  C3. On a chain column, \<open>operator*=\<close> with a factor that is zero in the field and
  \<open>multiply_target_and_add\<close> with the coefficient zero throw \<open>std::invalid_argument\<close>, and
  the columns are at that moment what they were before the call: cells, stored pivot and
  dimension of the target, and the source. With row access switched off the two columns
  are all the call can reach.
\<close>

theorem chain_zero_throws:
  assumes "is_chain M" "if is_z2 M then v mod 2 = 0 else get_value M v = 0"
  shows "times_eq M this v = Throws InvalidArgument this \<and>
         multiply_target_and_add M 0 this other = Throws InvalidArgument (this, other)"
  using assms
  by (auto simp: times_eq_def multiply_target_and_add_def priv_multiply_target_and_add_def
        Let_def split: if_splits)

theorem chain_zero_throws_witness:
  "is_chain Z5_chain_options \<and>
   (if is_z2 Z5_chain_options then (10::nat) mod 2 = 0 else get_value Z5_chain_options 10 = 0) \<and>
   times_eq Z5_chain_options \<lparr>column = [\<lparr>row_index = 0, element = 1\<rparr>], pivot = 0, dim = 0\<rparr> 10
     = Throws InvalidArgument \<lparr>column = [\<lparr>row_index = 0, element = 1\<rparr>], pivot = 0, dim = 0\<rparr> \<and>
   multiply_target_and_add Z5_chain_options 0
      \<lparr>column = [\<lparr>row_index = 0, element = 1\<rparr>], pivot = 0, dim = 0\<rparr>
      \<lparr>column = [\<lparr>row_index = 0, element = 2\<rparr>], pivot = 0, dim = 0\<rparr>
    = Throws InvalidArgument
        (\<lparr>column = [\<lparr>row_index = 0, element = 1\<rparr>], pivot = 0, dim = 0\<rparr>,
         \<lparr>column = [\<lparr>row_index = 0, element = 2\<rparr>], pivot = 0, dim = 0\<rparr>)"
proof -
  have h1: "is_chain Z5_chain_options" by (simp add: is_chain_def Z5_chain_options_def)
  have h2: "if is_z2 Z5_chain_options then (10::nat) mod 2 = 0 else get_value Z5_chain_options 10 = 0"
    by (simp add: get_value_def Z5_chain_options_def)
  show ?thesis
    using chain_zero_throws[OF h1 h2] h1 h2 by simp
qed

section \<open>Well-formed columns stay well-formed\<close>

lemma boundary_cells_wf:
  assumes "field_ok M" "sorted_wrt (<) (map fst boundary)"
    "\<not> is_z2 M \<longrightarrow> list_all (\<lambda>p. get_value M (snd p) \<noteq> 0) boundary"
  shows "well_formed M (boundary_cells M boundary)"
proof -
  have p: "0 < characteristic M" "is_z2 M \<longrightarrow> characteristic M = 2"
    using assms(1) by (auto simp: field_ok_def is_prime_def)
  have "map row_index (boundary_cells M boundary) = map fst boundary"
    by (simp add: boundary_cells_def comp_def)
  moreover have "list_all (cell_ok M) (boundary_cells M boundary)"
    using assms(3) p
    by (auto simp: boundary_cells_def list_all_iff cell_ok_def priv_new_cell_def get_value_def)
  ultimately show ?thesis using assms(2) by (simp add: well_formed_def)
qed

lemma plus_eq_column: "column (fst (plus_eq M this other)) = fst (priv_add M (pivot this) (column this) (column other))"
  by (auto simp: plus_eq_def swap_pivots_and_dimension_def split: prod.splits)

lemma times_eq_wf:
  assumes "field_ok M" "well_formed M (column this)"
  shows "well_formed M (column (state_of (times_eq M this v)))"
proof -
  have p: "0 < characteristic M" using assms(1) by (auto simp: field_ok_def is_prime_def)
  have "well_formed M (map (\<lambda>c. c\<lparr>element := multiply_inplace M (element c) (get_value M v)\<rparr>) (column this))"
    if "get_value M v \<noteq> 0"
    using assms that p cell_ok_times[of M "get_value M v"]
    by (auto simp: well_formed_def comp_def list_all_iff get_value_def)
  then show ?thesis
    using assms by (auto simp: times_eq_def clear_def Let_def)
qed

lemma multiply_target_and_add_wf:
  assumes "field_ok M" "well_formed M (column this)" "well_formed M (column other)"
    "val < characteristic M"
  shows "well_formed M (column (fst (state_of (multiply_target_and_add M val this other))))"
proof (cases "is_chain M \<and> val = 0")
  case True
  then have "multiply_target_and_add M val this other = Throws InvalidArgument (this, other)"
    by (auto simp: multiply_target_and_add_def priv_multiply_target_and_add_def)
  then show ?thesis using assms by simp
next
  case False
  from multiply_target_and_add_Returns[OF assms False]
  show ?thesis by auto
qed

lemma multiply_source_and_add_wf:
  assumes "field_ok M" "well_formed M (column this)" "well_formed M (column other)"
    "val < characteristic M"
  shows "well_formed M (column (fst (multiply_source_and_add M this other val)))"
proof (cases "is_z2 M")
  case True
  then show ?thesis
    using assms priv_add_wf[of M "column this" "column other" "pivot this"]
    by (auto simp: multiply_source_and_add_def multiply_source_and_add_range_def plus_eq_column)
next
  case False
  then show ?thesis
    using assms priv_multiply_source_and_add_wf[of M val "column this" "column other" "pivot this"]
    by (auto simp: multiply_source_and_add_def multiply_source_and_add_range_def
          swap_pivots_and_dimension_def split: prod.splits)
qed

lemma reorder_loop_complete:
  "\<forall>c\<in>set cs. row_index c \<in> dom valueMap \<Longrightarrow>
   reorder_loop valueMap cs = (map (\<lambda>c. c\<lparr>row_index := the (valueMap (row_index c))\<rparr>) cs, True)"
  by (induction cs) (auto split: option.splits)

lemma distinct_map_insort_key:
  "distinct (map f (insort_key f x xs)) \<longleftrightarrow> f x \<notin> f ` set xs \<and> distinct (map f xs)"
  by (induction xs) (auto simp: set_insort_key)

lemma distinct_map_sort_key: "distinct (map f (sort_key f xs)) \<longleftrightarrow> distinct (map f xs)"
  by (induction xs) (auto simp: distinct_map_insort_key)

lemma reorder_wf:
  assumes "well_formed M (column this)"
    "\<forall>c\<in>set (column this). row_index c \<in> dom valueMap"
    "inj_on valueMap (row_index ` set (column this))"
  shows "well_formed M (column (state_of (reorder valueMap this)))"
proof -
  let ?cs = "map (\<lambda>c. c\<lparr>row_index := the (valueMap (row_index c))\<rparr>) (column this)"
  have r: "reorder valueMap this = Returns () (this\<lparr>column := sort_key row_index ?cs\<rparr>)"
    using reorder_loop_complete[OF assms(2)] by (simp add: reorder_def)
  have "inj_on (\<lambda>r. the (valueMap r)) (row_index ` set (column this))"
  proof (rule inj_onI)
    fix x y
    assume x: "x \<in> row_index ` set (column this)" and y: "y \<in> row_index ` set (column this)"
      and e: "the (valueMap x) = the (valueMap y)"
    from x assms(2) have "x \<in> dom valueMap" by auto
    then obtain vx where "valueMap x = Some vx" by auto
    moreover from y assms(2) have "y \<in> dom valueMap" by auto
    then obtain vy where "valueMap y = Some vy" by auto
    ultimately have "valueMap x = Some vx" "valueMap y = Some vy" by simp_all
    with e have "valueMap x = valueMap y" by simp
    with assms(3) x y show "x = y" by (auto dest: inj_onD)
  qed
  moreover have "distinct (map row_index (column this))"
    using assms(1) by (simp add: well_formed_def strict_sorted_iff)
  moreover have "distinct (map (\<lambda>r. the (valueMap r)) (map row_index (column this))) \<longleftrightarrow>
      distinct (map row_index (column this)) \<and>
      inj_on (\<lambda>r. the (valueMap r)) (set (map row_index (column this)))"
    by (rule distinct_map)
  ultimately have "distinct (map (\<lambda>r. the (valueMap r)) (map row_index (column this)))"
    by simp
  then have d: "distinct (map row_index ?cs)" by (simp add: comp_def)
  have "sorted_wrt (<) (map row_index (sort_key row_index ?cs))"
    using d by (simp add: strict_sorted_iff distinct_map_sort_key sorted_sort_key)
  moreover have "list_all (cell_ok M) (sort_key row_index ?cs)"
    using assms(1) by (auto simp: well_formed_def list_all_iff cell_ok_def)
  ultimately show ?thesis using r by (simp add: well_formed_def)
qed

lemma erase_row_subset: "set (erase_row r cs) \<subseteq> set cs"
  by (induction cs) auto

lemma erase_row_wf: "well_formed M cs \<Longrightarrow> well_formed M (erase_row r cs)"
proof (induction cs)
  case (Cons c cs)
  then show ?case using erase_row_subset[of r cs] by (auto simp: well_formed_Cons)
qed simp

text \<open>
  C6 (amended). Over a field, every column operation keeps the column well-formed, that is
  with strictly increasing rows and no zero element: the construction from a boundary with
  strictly increasing rows and coefficients that are not zero in the field, \<open>+=\<close>, \<open>*=\<close>,
  \<open>multiply_target_and_add\<close> and \<open>multiply_source_and_add\<close> with a well-formed source and a
  normalised scalar (also when the call throws), \<open>reorder\<close> with a map that is defined and
  injective on the rows of the column, \<open>clear\<close> and \<open>clear(rowIndex)\<close>.
\<close>

theorem column_operations_keep_well_formed:
  assumes "field_ok M" "well_formed M (column this)" "well_formed M (column other)"
    "val < characteristic M"
  shows "(sorted_wrt (<) (map fst boundary) \<and>
          (\<not> is_z2 M \<longrightarrow> list_all (\<lambda>p. get_value M (snd p) \<noteq> 0) boundary) \<longrightarrow>
            well_formed M (column (Naive_vector_column_of_dim M boundary dimension))) \<and>
         well_formed M (column (fst (plus_eq M this other))) \<and>
         well_formed M (column (plus_eq_range M this (column other))) \<and>
         well_formed M (column (state_of (times_eq M this v))) \<and>
         well_formed M (column (fst (state_of (multiply_target_and_add M val this other)))) \<and>
         well_formed M (column (fst (multiply_source_and_add M this other val))) \<and>
         ((\<forall>c\<in>set (column this). row_index c \<in> dom valueMap) \<and>
          inj_on valueMap (row_index ` set (column this)) \<longrightarrow>
            well_formed M (column (state_of (reorder valueMap this)))) \<and>
         well_formed M (column (clear this)) \<and>
         well_formed M (column (clear_row this rowIndex))"
  using assms
  by (simp add: boundary_cells_wf Naive_vector_column_of_dim_def plus_eq_column priv_add_wf
        plus_eq_range_def times_eq_wf multiply_target_and_add_wf multiply_source_and_add_wf
        reorder_wf clear_def clear_row_def erase_row_wf)

theorem column_operations_keep_well_formed_witness:
  "field_ok Z5_options \<and>
   well_formed Z5_options [\<lparr>row_index = 0, element = 1\<rparr>, \<lparr>row_index = 2, element = 3\<rparr>] \<and>
   well_formed Z5_options [\<lparr>row_index = 0, element = 4\<rparr>, \<lparr>row_index = 1, element = 2\<rparr>] \<and>
   (3::nat) < characteristic Z5_options \<and>
   sorted_wrt (<) (map fst [(0::nat, 1::nat), (3, 2)]) \<and>
   list_all (\<lambda>p. get_value Z5_options (snd p) \<noteq> 0) [(0::nat, 1::nat), (3, 2)] \<and>
   well_formed Z5_options (column (Naive_vector_column_of_dim Z5_options [(0, 1), (3, 2)] 1)) \<and>
   well_formed Z5_options (column (fst (plus_eq Z5_options
      \<lparr>column = [\<lparr>row_index = 0, element = 1\<rparr>, \<lparr>row_index = 2, element = 3\<rparr>], pivot = - 1, dim = 1\<rparr>
      \<lparr>column = [\<lparr>row_index = 0, element = 4\<rparr>, \<lparr>row_index = 1, element = 2\<rparr>], pivot = - 1, dim = 1\<rparr>))) \<and>
   well_formed Z5_options (column (state_of (times_eq Z5_options
      \<lparr>column = [\<lparr>row_index = 0, element = 1\<rparr>, \<lparr>row_index = 2, element = 3\<rparr>], pivot = - 1, dim = 1\<rparr> 7))) \<and>
   well_formed Z5_options (column (fst (state_of (multiply_target_and_add Z5_options 3
      \<lparr>column = [\<lparr>row_index = 0, element = 1\<rparr>, \<lparr>row_index = 2, element = 3\<rparr>], pivot = - 1, dim = 1\<rparr>
      \<lparr>column = [\<lparr>row_index = 0, element = 4\<rparr>, \<lparr>row_index = 1, element = 2\<rparr>], pivot = - 1, dim = 1\<rparr>)))) \<and>
   inj_on [0 \<mapsto> 5, 2 \<mapsto> (1::nat)] {0::nat, 2} \<and>
   well_formed Z5_options (column (state_of (reorder [0 \<mapsto> 5, 2 \<mapsto> 1]
      \<lparr>column = [\<lparr>row_index = 0, element = 1\<rparr>, \<lparr>row_index = 2, element = 3\<rparr>], pivot = - 1, dim = 1\<rparr>)))"
proof -
  let ?a = "\<lparr>column = [\<lparr>row_index = 0, element = 1\<rparr>, \<lparr>row_index = 2, element = 3\<rparr>], pivot = - 1, dim = 1\<rparr>"
  let ?b = "\<lparr>column = [\<lparr>row_index = 0, element = 4\<rparr>, \<lparr>row_index = 1, element = 2\<rparr>], pivot = - 1, dim = 1\<rparr>"
  let ?vm = "[0 \<mapsto> 5, 2 \<mapsto> (1::nat)] :: nat \<rightharpoonup> nat"
  have h1: "field_ok Z5_options" by (rule field_ok_examples)
  have h2: "well_formed Z5_options (column ?a)"
    by (simp add: well_formed_def cell_ok_def Z5_options_def)
  have h3: "well_formed Z5_options (column ?b)"
    by (simp add: well_formed_def cell_ok_def Z5_options_def)
  have h4: "(3::nat) < characteristic Z5_options" by (simp add: Z5_options_def)
  have h5: "sorted_wrt (<) (map fst [(0::nat, 1::nat), (3, 2)])" by simp
  have h6: "list_all (\<lambda>p. get_value Z5_options (snd p) \<noteq> 0) [(0::nat, 1::nat), (3, 2)]"
    by (simp add: get_value_def Z5_options_def)
  have h7: "\<forall>c\<in>set (column ?a). row_index c \<in> dom ?vm" by simp
  have h8: "inj_on ?vm {0::nat, 2}" by (simp add: inj_on_def)
  then have h8': "inj_on ?vm (row_index ` set (column ?a))" by simp
  note t = column_operations_keep_well_formed[OF h1 h2 h3 h4, of "[(0, 1), (3, 2)]" 1 7 ?vm 0]
  show ?thesis
    using t h1 h2 h3 h4 h5 h6 h7 h8 h8' by simp
qed

text \<open>
  Without the two provisos the invariant is lost. The constructor stores the coefficient of
  every pair of the boundary as \<open>get_value\<close> gives it: from the sorted boundary
  \<open>[(0, 5), (1, 7)]\<close> over \<open>Z/5\<close> it stores a cell with the element \<open>0\<close> at row \<open>0\<close>. And
  \<open>reorder\<close> with the map \<open>[3, 3]\<close> sends the rows \<open>0\<close> and \<open>1\<close> of a well-formed column
  both to row \<open>3\<close>, so that the rows no longer increase strictly.
\<close>

theorem constructor_and_reorder_counterexample:
  "sorted_wrt (<) (map fst [(0::nat, 5::nat), (1, 7)]) \<and>
   column (Naive_vector_column_of_dim Z5_options [(0, 5), (1, 7)] 1) =
     [\<lparr>row_index = 0, element = 0\<rparr>, \<lparr>row_index = 1, element = 2\<rparr>] \<and>
   \<not> well_formed Z5_options (column (Naive_vector_column_of_dim Z5_options [(0, 5), (1, 7)] 1)) \<and>
   well_formed Z5_options [\<lparr>row_index = 0, element = 1\<rparr>, \<lparr>row_index = 1, element = 1\<rparr>] \<and>
   reorder [0 \<mapsto> 3, 1 \<mapsto> 3]
     \<lparr>column = [\<lparr>row_index = 0, element = 1\<rparr>, \<lparr>row_index = 1, element = 1\<rparr>], pivot = - 1, dim = 1\<rparr> =
   Returns ()
     \<lparr>column = [\<lparr>row_index = 3, element = 1\<rparr>, \<lparr>row_index = 3, element = 1\<rparr>], pivot = - 1, dim = 1\<rparr> \<and>
   \<not> well_formed Z5_options [\<lparr>row_index = 3, element = 1\<rparr>, \<lparr>row_index = 3, element = 1\<rparr>]"
  by (simp add: Naive_vector_column_of_dim_def boundary_cells_def priv_new_cell_def get_value_def
      Z5_options_def well_formed_def cell_ok_def reorder_def)

section \<open>Adding one chain column to another\<close>

lemma entry_nonzero_in: "entry M cs i \<noteq> 0 \<Longrightarrow> i \<in> row_index ` set cs"
  by (rule ccontr) (simp add: entry_notin)

lemma entry_own_row:
  "field_ok M \<Longrightarrow> well_formed M cs \<Longrightarrow> c \<in> set cs \<Longrightarrow> 0 < entry M cs (row_index c)"
proof (induction cs)
  case (Cons d cs)
  then show ?case by (auto simp: well_formed_Cons cell_ok_def)
qed simp

lemma priv_add_rows:
  "c \<in> set (fst (priv_add M pv ts ss)) \<Longrightarrow> row_index c \<in> row_index ` (set ts \<union> set ss)"
  using add_loop_rows'[of c M pv ts ss]
  by (auto simp: priv_add_def split: if_splits)

lemma sorted_last_max:
  "sorted_wrt (<) xs \<Longrightarrow> x \<in> set xs \<Longrightarrow> \<forall>y\<in>set xs. y \<le> x \<Longrightarrow> last xs = (x::nat)"
proof (induction xs)
  case (Cons a xs)
  show ?case
  proof (cases "xs = []")
    case True
    then show ?thesis using Cons.prems by simp
  next
    case False
    have "x \<in> set xs"
    proof (rule ccontr)
      assume "x \<notin> set xs"
      then have "x = a" using Cons.prems by simp
      moreover obtain b where "b \<in> set xs" using False by (cases xs) auto
      ultimately show False using Cons.prems by fastforce
    qed
    then show ?thesis using Cons False by simp
  qed
qed simp

lemma sorted_le_last:
  "sorted_wrt (<) xs \<Longrightarrow> y \<in> set xs \<Longrightarrow> y \<le> (last xs :: nat)"
proof (induction xs)
  case (Cons a xs)
  show ?case
  proof (cases "xs = []")
    case True
    then show ?thesis using Cons.prems by simp
  next
    case False
    then have l: "last xs \<in> set xs" by simp
    show ?thesis
    proof (cases "y = a")
      case True
      then have "y < last xs" using Cons.prems l by simp
      then show ?thesis using False by simp
    next
      case False
      then have "y \<le> last xs" using Cons by simp
      then show ?thesis using \<open>xs \<noteq> []\<close> by simp
    qed
  qed
qed simp

lemma priv_add_last_row:
  assumes "field_ok M" "well_formed M ts" "well_formed M ss" "ss \<noteq> []"
    "\<forall>c\<in>set ts. row_index c < row_index (last ss)"
  shows "fst (priv_add M pv ts ss) \<noteq> [] \<and>
         row_index (last (fst (priv_add M pv ts ss))) = row_index (last ss)"
proof -
  let ?new = "fst (priv_add M pv ts ss)"
  let ?p = "row_index (last ss)"
  have l: "last ss \<in> set ss" using assms(4) by simp
  have "?p \<notin> row_index ` set ts" using assms(5) by auto
  then have "entry M ts ?p = 0" by (rule entry_notin)
  moreover have "0 < entry M ss ?p" using entry_own_row[OF assms(1,3) l] .
  moreover have "entry M ss ?p < characteristic M" using assms by (simp add: entry_wf_lt)
  ultimately have "entry M ?new ?p \<noteq> 0"
    using priv_add_entry[OF assms(1,2,3), of pv ?p] by simp
  then have in_new: "?p \<in> row_index ` set ?new" by (rule entry_nonzero_in)
  have srt: "sorted_wrt (<) (map row_index ?new)"
    using priv_add_wf[OF assms(1,2,3), of pv] by (simp add: well_formed_def)
  have "row_index c \<le> ?p" if "c \<in> set ?new" for c
  proof -
    from priv_add_rows[OF that] have "row_index c \<in> row_index ` set ts \<or> row_index c \<in> row_index ` set ss"
      by auto
    then show ?thesis
    proof
      assume "row_index c \<in> row_index ` set ts"
      then have "row_index c < ?p" using assms(5) by auto
      then show ?thesis by simp
    next
      assume "row_index c \<in> row_index ` set ss"
      then have "row_index c \<in> set (map row_index ss)" by simp
      moreover have "sorted_wrt (<) (map row_index ss)" using assms(3) by (simp add: well_formed_def)
      ultimately have "row_index c \<le> last (map row_index ss)" by (rule sorted_le_last[rotated])
      then show ?thesis using assms(4) by (simp add: last_map)
    qed
  qed
  then have "last (map row_index ?new) = ?p"
    using sorted_last_max[OF srt, of ?p] in_new by auto
  moreover have "?new \<noteq> []" using in_new by auto
  ultimately show ?thesis by (simp add: last_map)
qed

lemma vc_plus_eq_Returns:
  assumes "\<not> vc_is_non_zero (this\<lparr>vc_column := base_plus (vc_column this) (vc_column col)\<rparr>) (vc_pivot this)"
    "pivotToColumnIndex (vc_pivot this) = Some i" "pivotToColumnIndex (vc_pivot col) = Some j"
  shows "vc_plus_eq base_plus pivotToColumnIndex this col =
     Returns ()
       (pivotToColumnIndex(vc_pivot this \<mapsto> j, vc_pivot col \<mapsto> i),
        this\<lparr>vc_column := base_plus (vc_column this) (vc_column col), vc_pivot := vc_pivot col\<rparr>,
        col\<lparr>vc_pivot := vc_pivot this\<rparr>)"
  using assms by (simp add: vc_plus_eq_def Let_def)

lemma add_loop_snd_Less:
  "row_index t < row_index s \<Longrightarrow>
   snd (add_loop M pv (t # ts) (s # ss)) = snd (add_loop M pv ts (s # ss))"
  by (simp add: add_loop.simps(3) split: prod.splits)

lemma add_loop_snd_Greater:
  "row_index t > row_index s \<Longrightarrow>
   snd (add_loop M pv (t # ts) (s # ss)) = snd (add_loop M pv (t # ts) ss)"
  by (simp add: add_loop.simps(3) split: prod.splits)

lemma add_loop_snd_Equal:
  "row_index t = row_index s \<Longrightarrow>
   snd (add_loop M pv (t # ts) (s # ss)) =
     (if is_z2 M \<or> add_inplace M (element t) (element s) = 0
      then snd (add_loop M pv ts ss) \<or> (is_chain M \<and> int (row_index t) = pv)
      else snd (add_loop M pv ts ss))"
  by (simp add: add_loop.simps(3) Let_def split: prod.splits)

lemma add_loop_flag:
  "field_ok M \<Longrightarrow> well_formed M ts \<Longrightarrow> well_formed M ss \<Longrightarrow>
   snd (add_loop M pv ts ss) \<longleftrightarrow>
     is_chain M \<and> (\<exists>t\<in>set ts. int (row_index t) = pv \<and>
                     entry M (fst (add_loop M pv ts ss)) (row_index t) = 0)"
proof (induction ts ss rule: merge_induct)
  case (Nil1 ss)
  then show ?case by simp
next
  case (Nil2 t ts)
  have "entry M (t # ts) (row_index c) \<noteq> 0" if "c \<in> set (t # ts)" for c
    using entry_own_row[OF Nil2(1,2) that] by simp
  then show ?case by (auto simp del: entry.simps)
next
  case (Less t ts s ss)
  let ?new = "fst (add_loop M pv ts (s # ss))"
  have ih: "snd (add_loop M pv ts (s # ss)) \<longleftrightarrow>
     is_chain M \<and> (\<exists>t\<in>set ts. int (row_index t) = pv \<and> entry M ?new (row_index t) = 0)"
    using Less by (simp add: well_formed_Cons)
  have f1: "entry M (t # ?new) (row_index t) \<noteq> 0"
    using Less.prems by (auto simp: well_formed_Cons cell_ok_def)
  have f2: "entry M (t # ?new) (row_index t') = entry M ?new (row_index t')" if "t' \<in> set ts" for t'
    using Less.prems that by (auto simp: well_formed_Cons)
  show ?case
    unfolding add_loop_snd_Less[OF Less.hyps] add_loop_Less[OF Less.hyps] ih
    using f1 f2 by (auto simp del: entry.simps)
next
  case (Greater t ts s ss)
  let ?new = "fst (add_loop M pv (t # ts) ss)"
  have ih: "snd (add_loop M pv (t # ts) ss) \<longleftrightarrow>
     is_chain M \<and> (\<exists>t\<in>set (t # ts). int (row_index t) = pv \<and> entry M ?new (row_index t) = 0)"
    using Greater by (simp add: well_formed_Cons)
  have f2: "entry M (priv_copy_cell M s # ?new) (row_index t') = entry M ?new (row_index t')"
    if "t' \<in> set (t # ts)" for t'
    using Greater.prems Greater.hyps that by (auto simp: well_formed_Cons)
  show ?case
    unfolding add_loop_snd_Greater[OF Greater.hyps] add_loop_Greater[OF Greater.hyps] ih
    using f2 by (auto simp del: entry.simps)
next
  case (Equal t ts s ss)
  let ?new = "fst (add_loop M pv ts ss)"
  have ih: "snd (add_loop M pv ts ss) \<longleftrightarrow>
     is_chain M \<and> (\<exists>t\<in>set ts. int (row_index t) = pv \<and> entry M ?new (row_index t) = 0)"
    using Equal by (simp add: well_formed_Cons)
  have z: "entry M ?new (row_index t) = 0"
  proof (rule entry_notin, rule notI)
    assume "row_index t \<in> row_index ` set ?new"
    then obtain c where c: "c \<in> set ?new" "row_index c = row_index t" by auto
    from add_loop_rows'[OF c(1)] have "row_index c \<in> row_index ` (set ts \<union> set ss)" .
    then have "row_index t < row_index c"
      using Equal by (auto simp: well_formed_Cons)
    then show False using c by simp
  qed
  show ?case
  proof (cases "is_z2 M \<or> add_inplace M (element t) (element s) = 0")
    case True
    then show ?thesis
      unfolding add_loop_snd_Equal[OF Equal.hyps] add_loop_Equal[OF Equal.hyps] ih
      using z by (auto simp del: entry.simps)
  next
    case False
    let ?t = "t\<lparr>element := add_inplace M (element t) (element s)\<rparr>"
    have f1: "entry M (?t # ?new) (row_index t) \<noteq> 0"
      using False by simp
    have f2: "entry M (?t # ?new) (row_index t') = entry M ?new (row_index t')" if "t' \<in> set ts" for t'
      using Equal.prems that by (auto simp: well_formed_Cons)
    show ?thesis
      unfolding add_loop_snd_Equal[OF Equal.hyps] add_loop_Equal[OF Equal.hyps] ih
      using False f1 f2 by (auto simp del: entry.simps)
  qed
qed

lemma priv_add_flag:
  assumes "field_ok M" "well_formed M ts" "well_formed M ss" "is_chain M"
    "t \<in> set ts" "int (row_index t) = pv" "entry M (fst (priv_add M pv ts ss)) (row_index t) = 0"
  shows "snd (priv_add M pv ts ss)"
proof -
  have "ts \<noteq> []" using assms(5) by auto
  moreover have "ss \<noteq> []"
  proof
    assume "ss = []"
    then have "entry M ts (row_index t) = 0" using assms(7) by (simp add: priv_add_def)
    then show False using entry_own_row[OF assms(1,2,5)] by simp
  qed
  ultimately have "priv_add M pv ts ss = add_loop M pv ts ss" by (simp add: priv_add_def)
  then show ?thesis using add_loop_flag[OF assms(1,2,3), of pv] assms(4,5,6,7) by auto
qed

lemma plus_eq_chain_swap:
  assumes "is_chain M" "snd (priv_add M (pivot a) (column a) (column b))"
  shows "pivot (fst (plus_eq M a b)) = pivot b \<and> pivot (snd (plus_eq M a b)) = pivot a \<and>
         dim (fst (plus_eq M a b)) = dim b \<and> dim (snd (plus_eq M a b)) = dim a \<and>
         column (snd (plus_eq M a b)) = column b"
  using assms by (auto simp: plus_eq_def swap_pivots_and_dimension_def split: prod.splits)

text \<open>
  C7. When \<open>operator+=\<close> of a chain column leaves no cell at the stored pivot row of the
  target, and the dictionary holds both pivots, the call returns with the stored pivots
  of target and source exchanged and the two dictionary entries exchanged, so that the
  dictionary gives at the new pivot of each column the index it gave at its old one, and
  no other entry has changed. The cells of the source are unchanged. With the merge as
  the addition of the base class, the stored pivot of the target is again the largest row
  of its cells when the pivot of the source was the largest row of the source and lies
  above every row of the target. In \<open>Naive_vector_column\<close> the same exchange of the
  pivots happens when the entry at the pivot row of a chain column becomes zero.
\<close>

theorem chain_addition_swaps_pivots:
  assumes "\<not> vc_is_non_zero (this\<lparr>vc_column := base_plus (vc_column this) (vc_column col)\<rparr>) (vc_pivot this)"
    and "pivotToColumnIndex (vc_pivot this) = Some i"
    and "pivotToColumnIndex (vc_pivot col) = Some j"
  shows "\<exists>dict' this' col'.
           vc_plus_eq base_plus pivotToColumnIndex this col = Returns () (dict', this', col') \<and>
           vc_pivot this' = vc_pivot col \<and> vc_pivot col' = vc_pivot this \<and>
           dict' (vc_pivot this') = Some i \<and> dict' (vc_pivot col') = Some j \<and>
           (\<forall>k. k \<noteq> vc_pivot this \<and> k \<noteq> vc_pivot col \<longrightarrow> dict' k = pivotToColumnIndex k) \<and>
           vc_column this' = base_plus (vc_column this) (vc_column col) \<and>
           vc_column col' = vc_column col \<and>
           (base_plus = Vector_column_plus_eq M \<and> field_ok M \<and>
            well_formed M (vc_column this) \<and> well_formed M (vc_column col) \<and>
            vc_column col \<noteq> [] \<and> vc_pivot col = int (row_index (last (vc_column col))) \<and>
            (\<forall>c\<in>set (vc_column this). int (row_index c) < vc_pivot col) \<longrightarrow>
              vc_column this' \<noteq> [] \<and> vc_pivot this' = int (row_index (last (vc_column this')))) \<and>
           (is_chain N \<and> field_ok N \<and> well_formed N (column a) \<and> well_formed N (column b) \<and>
            (\<exists>t\<in>set (column a). int (row_index t) = pivot a \<and>
                entry N (column (fst (plus_eq N a b))) (row_index t) = 0) \<longrightarrow>
              pivot (fst (plus_eq N a b)) = pivot b \<and> pivot (snd (plus_eq N a b)) = pivot a \<and>
              column (snd (plus_eq N a b)) = column b)"
proof -
  let ?dict = "pivotToColumnIndex(vc_pivot this \<mapsto> j, vc_pivot col \<mapsto> i)"
  let ?tgt = "this\<lparr>vc_column := base_plus (vc_column this) (vc_column col), vc_pivot := vc_pivot col\<rparr>"
  let ?col = "col\<lparr>vc_pivot := vc_pivot this\<rparr>"
  have r: "vc_plus_eq base_plus pivotToColumnIndex this col = Returns () (?dict, ?tgt, ?col)"
    using assms by (rule vc_plus_eq_Returns)
  have ij: "vc_pivot this = vc_pivot col \<Longrightarrow> i = j" using assms(2,3) by simp
  have d1: "?dict (vc_pivot ?tgt) = Some i" by simp
  have d2: "?dict (vc_pivot ?col) = Some j" using ij by simp
  have d3: "\<forall>k. k \<noteq> vc_pivot this \<and> k \<noteq> vc_pivot col \<longrightarrow> ?dict k = pivotToColumnIndex k"
    by simp
  have p1: "vc_pivot ?tgt = vc_pivot col" and p2: "vc_pivot ?col = vc_pivot this"
    and cc1: "vc_column ?tgt = base_plus (vc_column this) (vc_column col)"
    and cc2: "vc_column ?col = vc_column col"
    by simp_all
  have last_row: "vc_column ?tgt \<noteq> [] \<and> vc_pivot ?tgt = int (row_index (last (vc_column ?tgt)))"
    if h: "base_plus = Vector_column_plus_eq M" "field_ok M"
      "well_formed M (vc_column this)" "well_formed M (vc_column col)"
      "vc_column col \<noteq> []" "vc_pivot col = int (row_index (last (vc_column col)))"
      "\<forall>c\<in>set (vc_column this). int (row_index c) < vc_pivot col"
  proof -
    have "\<forall>c\<in>set (vc_column this). row_index c < row_index (last (vc_column col))"
      using h(6,7) by simp
    from priv_add_last_row[OF h(2,3,4,5) this, of "- 1"]
    show ?thesis using h(1,6) by (simp add: Vector_column_plus_eq_def)
  qed
  have naive: "pivot (fst (plus_eq N a b)) = pivot b \<and> pivot (snd (plus_eq N a b)) = pivot a \<and>
      column (snd (plus_eq N a b)) = column b"
    if h: "is_chain N" "field_ok N" "well_formed N (column a)" "well_formed N (column b)"
      "\<exists>t\<in>set (column a). int (row_index t) = pivot a \<and>
          entry N (column (fst (plus_eq N a b))) (row_index t) = 0"
  proof -
    from h(5) obtain t where t: "t \<in> set (column a)" "int (row_index t) = pivot a"
      "entry N (fst (priv_add N (pivot a) (column a) (column b))) (row_index t) = 0"
      by (auto simp: plus_eq_column)
    have "snd (priv_add N (pivot a) (column a) (column b))"
      using priv_add_flag[OF h(2,3,4,1) t] .
    from plus_eq_chain_swap[OF h(1) this] show ?thesis by simp
  qed
  have c9: "base_plus = Vector_column_plus_eq M \<and> field_ok M \<and>
            well_formed M (vc_column this) \<and> well_formed M (vc_column col) \<and>
            vc_column col \<noteq> [] \<and> vc_pivot col = int (row_index (last (vc_column col))) \<and>
            (\<forall>c\<in>set (vc_column this). int (row_index c) < vc_pivot col) \<longrightarrow>
              vc_column ?tgt \<noteq> [] \<and> vc_pivot ?tgt = int (row_index (last (vc_column ?tgt)))"
    using last_row by blast
  have c10: "is_chain N \<and> field_ok N \<and> well_formed N (column a) \<and> well_formed N (column b) \<and>
            (\<exists>t\<in>set (column a). int (row_index t) = pivot a \<and>
                entry N (column (fst (plus_eq N a b))) (row_index t) = 0) \<longrightarrow>
              pivot (fst (plus_eq N a b)) = pivot b \<and> pivot (snd (plus_eq N a b)) = pivot a \<and>
              column (snd (plus_eq N a b)) = column b"
    using naive by blast
  show ?thesis
    apply (rule exI[of _ ?dict])
    apply (rule exI[of _ ?tgt])
    apply (rule exI[of _ ?col])
    apply (intro conjI)
    apply (rule r p1 p2 d1 d2 d3 cc1 cc2 c9 c10)+
    done
qed

theorem chain_addition_swaps_pivots_witness:
  "\<not> vc_is_non_zero
       (\<lparr>vc_column = [\<lparr>row_index = 0, element = 1\<rparr>, \<lparr>row_index = 1, element = 1\<rparr>],
         vc_pivot = 1, vc_pairedColumn = - 1\<rparr>
        \<lparr>vc_column := Vector_column_plus_eq Z2_chain_options
            [\<lparr>row_index = 0, element = 1\<rparr>, \<lparr>row_index = 1, element = 1\<rparr>]
            [\<lparr>row_index = 1, element = 1\<rparr>, \<lparr>row_index = 2, element = 1\<rparr>]\<rparr>) 1 \<and>
   [1 \<mapsto> 0, 2 \<mapsto> 1::nat] (1::int) = Some 0 \<and>
   [1 \<mapsto> 0, 2 \<mapsto> 1::nat] (2::int) = Some 1 \<and>
   vc_pivot (fst (snd (state_of
     (vc_plus_eq (Vector_column_plus_eq Z2_chain_options) [1 \<mapsto> 0, 2 \<mapsto> 1]
        \<lparr>vc_column = [\<lparr>row_index = 0, element = 1\<rparr>, \<lparr>row_index = 1, element = 1\<rparr>],
         vc_pivot = 1, vc_pairedColumn = - 1\<rparr>
        \<lparr>vc_column = [\<lparr>row_index = 1, element = 1\<rparr>, \<lparr>row_index = 2, element = 1\<rparr>],
         vc_pivot = 2, vc_pairedColumn = - 1\<rparr>)))) = 2 \<and>
   fst (state_of
     (vc_plus_eq (Vector_column_plus_eq Z2_chain_options) [1 \<mapsto> 0, 2 \<mapsto> 1]
        \<lparr>vc_column = [\<lparr>row_index = 0, element = 1\<rparr>, \<lparr>row_index = 1, element = 1\<rparr>],
         vc_pivot = 1, vc_pairedColumn = - 1\<rparr>
        \<lparr>vc_column = [\<lparr>row_index = 1, element = 1\<rparr>, \<lparr>row_index = 2, element = 1\<rparr>],
         vc_pivot = 2, vc_pairedColumn = - 1\<rparr>)) 2 = Some 0"
proof -
  let ?t = "\<lparr>vc_column = [\<lparr>row_index = 0, element = 1\<rparr>, \<lparr>row_index = 1, element = 1\<rparr>],
         vc_pivot = 1, vc_pairedColumn = - 1\<rparr>"
  let ?s = "\<lparr>vc_column = [\<lparr>row_index = 1, element = 1\<rparr>, \<lparr>row_index = 2, element = 1\<rparr>],
         vc_pivot = 2, vc_pairedColumn = - 1\<rparr>"
  let ?d = "[1 \<mapsto> 0, 2 \<mapsto> 1::nat] :: int \<rightharpoonup> nat"
  let ?plus = "Vector_column_plus_eq Z2_chain_options"
  have h1: "\<not> vc_is_non_zero (?t\<lparr>vc_column := ?plus (vc_column ?t) (vc_column ?s)\<rparr>) (vc_pivot ?t)"
    by (simp add: Vector_column_plus_eq_def priv_add_def add_loop.simps(3)
        vc_is_non_zero_def Z2_chain_options_def priv_copy_cell_def priv_new_cell_def Let_def)
  have h2: "?d (vc_pivot ?t) = Some 0" by simp
  have h3: "?d (vc_pivot ?s) = Some 1" by simp
  from chain_addition_swaps_pivots[of ?plus ?t ?s ?d 0 1, OF h1 h2 h3]
  obtain dict' this' col' where r: "vc_plus_eq ?plus ?d ?t ?s = Returns () (dict', this', col')"
    and p: "vc_pivot this' = vc_pivot ?s" and d: "dict' (vc_pivot this') = Some 0"
    by blast
  show ?thesis
    using h1 r p d by simp
qed

text \<open>
  The source after such an addition: target \<open>{0, 1}\<close> with pivot \<open>1\<close>, source \<open>{1, 2}\<close>
  with pivot \<open>2\<close>, over \<open>Z/2\<close>. The sum \<open>{0, 2}\<close> has no cell at row \<open>1\<close>, so the pivots
  are exchanged: the source still holds the rows \<open>1\<close> and \<open>2\<close>, and its stored pivot is
  now \<open>1\<close>, not its largest row.
\<close>

theorem chain_addition_source_pivot_counterexample:
  "\<not> vc_is_non_zero
       (\<lparr>vc_column = Vector_column_plus_eq Z2_chain_options
            [\<lparr>row_index = 0, element = 1\<rparr>, \<lparr>row_index = 1, element = 1\<rparr>]
            [\<lparr>row_index = 1, element = 1\<rparr>, \<lparr>row_index = 2, element = 1\<rparr>],
         vc_pivot = 1, vc_pairedColumn = - 1\<rparr>) 1 \<and>
   vc_pivot (snd (snd (state_of
     (vc_plus_eq (Vector_column_plus_eq Z2_chain_options) [1 \<mapsto> 0, 2 \<mapsto> 1]
        \<lparr>vc_column = [\<lparr>row_index = 0, element = 1\<rparr>, \<lparr>row_index = 1, element = 1\<rparr>],
         vc_pivot = 1, vc_pairedColumn = - 1\<rparr>
        \<lparr>vc_column = [\<lparr>row_index = 1, element = 1\<rparr>, \<lparr>row_index = 2, element = 1\<rparr>],
         vc_pivot = 2, vc_pairedColumn = - 1\<rparr>)))) = 1 \<and>
   map row_index (vc_column (snd (snd (state_of
     (vc_plus_eq (Vector_column_plus_eq Z2_chain_options) [1 \<mapsto> 0, 2 \<mapsto> 1]
        \<lparr>vc_column = [\<lparr>row_index = 0, element = 1\<rparr>, \<lparr>row_index = 1, element = 1\<rparr>],
         vc_pivot = 1, vc_pairedColumn = - 1\<rparr>
        \<lparr>vc_column = [\<lparr>row_index = 1, element = 1\<rparr>, \<lparr>row_index = 2, element = 1\<rparr>],
         vc_pivot = 2, vc_pairedColumn = - 1\<rparr>))))) = [1, 2]"
  by (simp add: vc_plus_eq_def Vector_column_plus_eq_def priv_add_def add_loop.simps(3)
        vc_is_non_zero_def Z2_chain_options_def priv_copy_cell_def priv_new_cell_def Let_def)

section \<open>The cached pivot of the hash-set column\<close>

text \<open>
  C5. The pivot of the hash-set column after \<open>reorder\<close> and \<open>add\<close>: the column \<open>{0}\<close> is
  reordered by the map \<open>0 \<mapsto> 5\<close> and the column \<open>{1}\<close> is added to it. The column now
  holds the rows \<open>5\<close> and \<open>1\<close>, and \<open>get_pivot\<close> returns \<open>1\<close>: \<open>add\<close> compared the new row
  with the pivot cached before the reordering and reset the flag \<open>reorder\<close> had set.
\<close>

theorem us_get_pivot_after_reorder_add:
  "us_reorder (Z2_unordered_set_column_of [0]) [5]
     = Returns () \<lparr>us_dim = 0, us_column = [5], us_pivotChanged = True, us_pivot = 0\<rparr> \<and>
   us_add \<lparr>us_dim = 0, us_column = [5], us_pivotChanged = True, us_pivot = 0\<rparr>
          (Z2_unordered_set_column_of [1])
     = \<lparr>us_dim = 0, us_column = [5, 1], us_pivotChanged = False, us_pivot = 1\<rparr> \<and>
   fst (us_get_pivot \<lparr>us_dim = 0, us_column = [5, 1], us_pivotChanged = False, us_pivot = 1\<rparr>) = 1 \<and>
   sint (max_element [5, 1]) = 5"
  by (simp add: us_reorder_def us_add_def us_get_pivot_def Z2_unordered_set_column_of_def
        max_element_def Let_def)

section \<open>The compressed matrix keeps its invariant\<close>

text \<open>The order of the columns: equivalent columns have the same content.\<close>

lemma column_less_irrefl [simp]: "\<not> column_less M c c"
  by (induction c) auto

lemma column_equiv_refl [simp]: "column_equiv M c c"
  by (simp add: column_equiv_def)

lemma column_equiv_sym: "column_equiv M c d \<longleftrightarrow> column_equiv M d c"
  by (auto simp: column_equiv_def)

lemma column_equiv_Nil [simp]: "column_equiv M c [] \<longleftrightarrow> c = []" "column_equiv M [] c \<longleftrightarrow> c = []"
  by (cases c; simp add: column_equiv_def)+

lemma column_equiv_Cons:
  "column_equiv M (a # c) (b # d) \<longleftrightarrow>
     row_index a = row_index b \<and> (is_z2 M \<or> element a = element b) \<and> column_equiv M c d"
  by (auto simp: column_equiv_def)

lemma column_equiv_get_content_loop:
  "column_equiv M c d \<Longrightarrow> get_content_loop M c cont = get_content_loop M d cont"
proof (induction c arbitrary: d cont)
  case Nil
  then show ?case by simp
next
  case (Cons a c)
  then obtain b d' where d: "d = b # d'" by (cases d) auto
  with Cons.prems have e: "row_index a = row_index b" "is_z2 M \<or> element a = element b"
    "column_equiv M c d'"
    by (simp_all add: column_equiv_Cons)
  show ?case using d e Cons.IH[OF e(3)] by auto
qed

lemma column_equiv_last:
  "column_equiv M c d \<Longrightarrow> c \<noteq> [] \<Longrightarrow> row_index (last c) = row_index (last d)"
proof (induction c arbitrary: d)
  case Nil
  then show ?case by simp
next
  case (Cons a c)
  then obtain b d' where d: "d = b # d'" by (cases d) auto
  with Cons.prems have e: "row_index a = row_index b" "column_equiv M c d'"
    by (simp_all add: column_equiv_Cons)
  show ?case
  proof (cases "c = []")
    case True
    then have "d' = []" using e(2) by simp
    then show ?thesis using True d e by simp
  next
    case False
    then have "d' \<noteq> []" using e(2) by auto
    then show ?thesis using False d Cons.IH[OF e(2) False] by simp
  qed
qed

lemma column_equiv_get_content:
  assumes "column_equiv M (column c) (column d)"
  shows "get_content M c n = get_content M d n"
proof -
  have e: "column c = [] \<longleftrightarrow> column d = []" using assms by auto
  show ?thesis
    using assms e column_equiv_get_content_loop[OF assms] column_equiv_last[OF assms]
    by (auto simp: get_content_def)
qed

text \<open>\<open>link\<close> on two representatives.\<close>

lemma link_rep:
  assumes "ds_rep ds i = i" "ds_rep ds j = j" "i \<noteq> j"
  shows "ds_rep (link ds i j) =
           (if ds_rank ds i > ds_rank ds j
            then (\<lambda>k. if ds_rep ds k = j then i else ds_rep ds k)
            else (\<lambda>k. if ds_rep ds k = i then j else ds_rep ds k))"
  using assms by (simp add: link_def Let_def)

lemma link_same [simp]: "link ds x x = ds"
  by (simp add: link_def)

lemma classes_ok_link:
  assumes "classes_ok ds N" "ds_rep ds i = i" "ds_rep ds j = j" "i < N" "j < N"
  shows "classes_ok (link ds i j) N"
proof (cases "i = j")
  case True
  then show ?thesis using assms by simp
next
  case False
  show ?thesis
    using assms False unfolding classes_ok_def link_rep[OF assms(2,3) False]
    by (auto split: if_splits)
qed

lemma stored_cells_simps [simp]:
  "stored_cells (m\<lparr>repToColumn := s\<rparr>) x = stored_cells m x"
  "stored_cells (m\<lparr>columnToRep := d\<rparr>) x = stored_cells m x"
  "stored_cells (m\<lparr>columnClasses := c\<rparr>) x = stored_cells m x"
  "stored_cells (m\<lparr>nextColumnIndex := n\<rparr>) x = stored_cells m x"
  "stored_cells (m\<lparr>poolNext := p\<rparr>) x = stored_cells m x"
  "stored_cells (m\<lparr>columnPool := pl\<rparr>) x = (case pl x of None \<Rightarrow> [] | Some col \<Rightarrow> column (base col))"
  by (simp_all add: stored_cells_def)

text \<open>What a state with a pending column provides.\<close>

lemma inv_pendingD:
  assumes "inv_pending M m N (Some (r, a))"
  shows "r < N" "N \<le> length (repToColumn m)" "repToColumn m ! r = Some a"
    "a \<notin> set (columnToRep m)" "\<exists>col. columnPool m a = Some col"
    "ds_rep (columnClasses m) r = r" "classes_ok (columnClasses m) N" "dict_ok M m N"
    "slots_ok m N (Some (r, a))"
  using assms by (auto simp: inv_pending_def pending_ok_def slots_ok_def)

lemma dict_okD:
  assumes "dict_ok M m N" "d \<in> set (columnToRep m)"
  obtains col where "columnPool m d = Some col" "column (base col) \<noteq> []" "rep col < N"
    "repToColumn m ! rep col = Some d" "ds_rep (columnClasses m) (rep col) = rep col"
  using assms unfolding dict_ok_def by blast

lemma dict_ok_rep_inj:
  assumes "dict_ok M m N" "d \<in> set (columnToRep m)" "e \<in> set (columnToRep m)"
    "columnPool m d = Some dc" "columnPool m e = Some ec" "rep dc = rep ec"
  shows "d = e"
proof -
  from dict_okD[OF assms(1,2)] assms(4) have "repToColumn m ! rep dc = Some d" by auto
  moreover from dict_okD[OF assms(1,3)] assms(5) have "repToColumn m ! rep ec = Some e" by auto
  ultimately show ?thesis using assms(6) by simp
qed

text \<open>\<open>_insert_column\<close>, first case: the pending column is empty and is destroyed.\<close>

lemma priv_insert_column_empty:
  assumes inv: "inv_pending M m N (Some (r, a))"
    and col: "columnPool m a = Some col" "column (base col) = []"
  defines "m' \<equiv> m\<lparr>columnPool := (columnPool m)(a := None), repToColumn := (repToColumn m)[r := None]\<rparr>"
  shows "priv_insert_column M m r = Returns () m'" "inv_pending M m' N None"
    "filed M m r a (column (base col)) m'"
proof -
  note d = inv_pendingD[OF inv]
  show "priv_insert_column M m r = Returns () m'"
    using d(1,2,3) col by (simp add: priv_insert_column_def is_empty_def m'_def)
  show "filed M m r a (column (base col)) m'"
    using d(1,2) col by (auto simp: filed_def m'_def stored_cells_def)
  have pool_other: "columnPool m' x = columnPool m x" if "x \<in> set (columnToRep m)" for x
    using that d(4) by (auto simp: m'_def)
  have cells_other: "stored_cells m' x = stored_cells m x" if "x \<in> set (columnToRep m)" for x
    using that d(4) by (auto simp: m'_def stored_cells_def)
  have slot_other: "repToColumn m' ! rep c = repToColumn m ! rep c"
    if "x \<in> set (columnToRep m)" "columnPool m x = Some c" for x c
  proof -
    from dict_okD[OF d(8) that(1)] that(2) have "repToColumn m ! rep c = Some x" by auto
    then have "rep c \<noteq> r" using d(3,4) that(1) by auto
    then show ?thesis by (simp add: m'_def)
  qed
  have dk: "dict_ok M m' N"
    unfolding dict_ok_def
  proof (intro conjI ballI impI)
    show "distinct (columnToRep m')" using d(8) by (simp add: dict_ok_def m'_def)
  next
    fix x assume x: "x \<in> set (columnToRep m')"
    then have x': "x \<in> set (columnToRep m)" by (simp add: m'_def)
    from dict_okD[OF d(8) x'] obtain c where c: "columnPool m x = Some c" "column (base c) \<noteq> []"
      "rep c < N" "repToColumn m ! rep c = Some x" "ds_rep (columnClasses m) (rep c) = rep c"
      by blast
    show "\<exists>col. columnPool m' x = Some col \<and> column (base col) \<noteq> [] \<and> rep col < N \<and>
            repToColumn m' ! rep col = Some x \<and> ds_rep (columnClasses m') (rep col) = rep col"
      using c pool_other[OF x'] slot_other[OF x' c(1)] by (auto simp: m'_def)
  next
    fix x y assume "x \<in> set (columnToRep m')" "y \<in> set (columnToRep m')" "x \<noteq> y"
    then show "\<not> column_equiv M (stored_cells m' x) (stored_cells m' y)"
      using d(8) cells_other by (simp add: dict_ok_def m'_def)
  qed
  have sk: "slots_ok m' N None"
    unfolding slots_ok_def
  proof (intro conjI allI impI)
    show "N \<le> length (repToColumn m')" using d(2) by (simp add: m'_def)
  next
    fix r' x assume r': "r' < length (repToColumn m')" and s: "repToColumn m' ! r' = Some x"
    then have ne: "r' \<noteq> r" by (auto simp: m'_def)
    then have "repToColumn m ! r' = Some x" "r' < length (repToColumn m)"
      using s r' by (auto simp: m'_def)
    then have "x \<in> set (columnToRep m) \<and> (\<exists>col. columnPool m x = Some col \<and> rep col = r')"
      using d(9) ne by (auto simp: slots_ok_def)
    then show "None = Some (r', x) \<or>
        (x \<in> set (columnToRep m') \<and> (\<exists>col. columnPool m' x = Some col \<and> rep col = r'))"
      using pool_other[of x] by (auto simp: m'_def)
  qed
  have "\<forall>x\<ge>poolNext m'. columnPool m' x = None"
    using inv by (auto simp: inv_pending_def m'_def)
  then show "inv_pending M m' N None"
    using dk sk d(7) by (simp add: inv_pending_def pending_ok_def m'_def)
qed


text \<open>Second case: no stored column has the cells of the pending one, which is filed.\<close>

lemma find_None_iff': "find P xs = None \<longleftrightarrow> (\<forall>x\<in>set xs. \<not> P x)"
  by (induction xs) auto

lemma priv_insert_column_fresh:
  assumes inv: "inv_pending M m N (Some (r, a))"
    and col: "columnPool m a = Some col" "column (base col) \<noteq> []"
    and nf: "\<forall>d\<in>set (columnToRep m). \<not> column_equiv M (stored_cells m d) (column (base col))"
  defines "m' \<equiv> m\<lparr>columnPool := (columnPool m)(a \<mapsto> col\<lparr>rep := r\<rparr>),
                    columnToRep := columnToRep m @ [a]\<rparr>"
  shows "priv_insert_column M m r = Returns () m'" "inv_pending M m' N None"
    "filed M m r a (column (base col)) m'"
proof -
  note d = inv_pendingD[OF inv]
  show "filed M m r a (column (base col)) m'"
    using d(1,2,3) col by (auto simp: filed_def m'_def stored_cells_def)
  let ?m0 = "m\<lparr>columnPool := (columnPool m)(a \<mapsto> col\<lparr>rep := r\<rparr>)\<rparr>"
  have cells0: "stored_cells ?m0 x = stored_cells m x" for x
    using col(1) by (auto simp: stored_cells_def)
  have cells_a: "stored_cells m a = column (base col)"
    using col(1) by (simp add: stored_cells_def)
  have "find (\<lambda>d. column_equiv M (stored_cells ?m0 d) (stored_cells ?m0 a)) (columnToRep ?m0) = None"
    unfolding find_None_iff' cells0 cells_a using nf by simp
  then have di: "dict_insert M ?m0 a = (a, m')"
    by (simp add: dict_insert_def m'_def)
  show "priv_insert_column M m r = Returns () m'"
    using d(1,2,3) col di by (simp add: priv_insert_column_def is_empty_def m'_def)
  have cells': "stored_cells m' x = stored_cells m x" for x
    using col(1) by (auto simp: stored_cells_def m'_def)
  have pool_other: "columnPool m' x = columnPool m x" if "x \<in> set (columnToRep m)" for x
    using that d(4) by (auto simp: m'_def)
  have dk: "dict_ok M m' N"
    unfolding dict_ok_def
  proof (intro conjI ballI impI)
    show "distinct (columnToRep m')" using d(8) d(4) by (simp add: dict_ok_def m'_def)
  next
    fix x assume x: "x \<in> set (columnToRep m')"
    show "\<exists>col. columnPool m' x = Some col \<and> column (base col) \<noteq> [] \<and> rep col < N \<and>
            repToColumn m' ! rep col = Some x \<and> ds_rep (columnClasses m') (rep col) = rep col"
    proof (cases "x = a")
      case True
      then show ?thesis using col d(1,3,6) by (simp add: m'_def)
    next
      case False
      then have x': "x \<in> set (columnToRep m)" using x by (simp add: m'_def)
      from dict_okD[OF d(8) x'] obtain c where c: "columnPool m x = Some c" "column (base c) \<noteq> []"
        "rep c < N" "repToColumn m ! rep c = Some x" "ds_rep (columnClasses m) (rep c) = rep c"
        by blast
      then show ?thesis using pool_other[OF x'] by (simp add: m'_def)
    qed
  next
    fix x y assume xy: "x \<in> set (columnToRep m')" "y \<in> set (columnToRep m')" "x \<noteq> y"
    show "\<not> column_equiv M (stored_cells m' x) (stored_cells m' y)"
    proof (cases "x = a")
      case True
      then have "y \<in> set (columnToRep m)" using xy by (simp add: m'_def)
      then have "\<not> column_equiv M (stored_cells m y) (stored_cells m a)"
        using nf cells_a by simp
      then show ?thesis using True by (simp add: cells' column_equiv_sym)
    next
      case False
      then have x': "x \<in> set (columnToRep m)" using xy by (simp add: m'_def)
      show ?thesis
      proof (cases "y = a")
        case True
        then show ?thesis using nf cells_a x' by (simp add: cells')
      next
        case False
        then have "y \<in> set (columnToRep m)" using xy by (simp add: m'_def)
        then show ?thesis using x' xy(3) d(8) by (simp add: cells' dict_ok_def)
      qed
    qed
  qed
  have sk: "slots_ok m' N None"
    unfolding slots_ok_def
  proof (intro conjI allI impI)
    show "N \<le> length (repToColumn m')" using d(2) by (simp add: m'_def)
  next
    fix r' x assume r': "r' < length (repToColumn m')" and s: "repToColumn m' ! r' = Some x"
    then have old: "Some (r, a) = Some (r', x) \<or>
        (x \<in> set (columnToRep m) \<and> (\<exists>col. columnPool m x = Some col \<and> rep col = r'))"
      using d(9) by (simp add: slots_ok_def m'_def)
    show "None = Some (r', x) \<or>
        (x \<in> set (columnToRep m') \<and> (\<exists>col. columnPool m' x = Some col \<and> rep col = r'))"
    proof (cases "x = a")
      case True
      then have "r' = r" using old d(4) by auto
      then show ?thesis using True by (simp add: m'_def)
    next
      case False
      then show ?thesis using old pool_other[of x] by (auto simp: m'_def)
    qed
  qed
  have "\<forall>x\<ge>poolNext m'. columnPool m' x = None"
    using inv col(1) by (auto simp: inv_pending_def m'_def)
  then show "inv_pending M m' N None"
    using dk sk d(7) by (simp add: inv_pending_def pending_ok_def m'_def)
qed

text \<open>
  Third case: a stored column has the cells of the pending one. The classes are united and
  the pending column is destroyed; the stored one moves to the pointer of the pending one
  when that is the representative of the union.
\<close>

lemma priv_insert_column_double_setup:
  assumes inv: "inv_pending M m N (Some (r, a))"
    and col: "columnPool m a = Some col" "column (base col) \<noteq> []"
    and fd: "find (\<lambda>d. column_equiv M (stored_cells m d) (column (base col))) (columnToRep m) = Some d"
    and dc: "columnPool m d = Some dc"
  shows "priv_insert_column M m r =
           priv_insert_double_column (m\<lparr>columnPool := (columnPool m)(a \<mapsto> col\<lparr>rep := r\<rparr>)\<rparr>) r d"
    "d \<in> set (columnToRep m)" "d \<noteq> a" "rep dc \<noteq> r" "rep dc < N"
    "repToColumn m ! rep dc = Some d" "ds_rep (columnClasses m) (rep dc) = rep dc"
    "column_equiv M (column (base dc)) (column (base col))"
proof -
  note p = inv_pendingD[OF inv]
  let ?m0 = "m\<lparr>columnPool := (columnPool m)(a \<mapsto> col\<lparr>rep := r\<rparr>)\<rparr>"
  from fd show din: "d \<in> set (columnToRep m)"
    by (auto simp: find_Some_iff)
  from fd have "column_equiv M (stored_cells m d) (column (base col))"
    by (auto simp: find_Some_iff)
  then show "column_equiv M (column (base dc)) (column (base col))"
    using dc by (simp add: stored_cells_def)
  show da: "d \<noteq> a" using din p(4) by auto
  from dict_okD[OF p(8) din] dc show rd: "rep dc < N" "repToColumn m ! rep dc = Some d"
    "ds_rep (columnClasses m) (rep dc) = rep dc" by auto
  show ne: "rep dc \<noteq> r" using rd(2) p(3) da by auto
  have cells0: "stored_cells ?m0 x = stored_cells m x" for x
    using col(1) by (auto simp: stored_cells_def)
  have cells_a: "stored_cells m a = column (base col)"
    using col(1) by (simp add: stored_cells_def)
  have "find (\<lambda>d. column_equiv M (stored_cells ?m0 d) (stored_cells ?m0 a)) (columnToRep ?m0) = Some d"
    unfolding cells0 cells_a using fd by simp
  then have di: "dict_insert M ?m0 a = (d, ?m0)"
    by (simp add: dict_insert_def)
  show "priv_insert_column M m r = priv_insert_double_column ?m0 r d"
    using p(1,2,3) col di dc da ne by (simp add: priv_insert_column_def is_empty_def)
qed

lemma priv_insert_column_double_keep:
  assumes inv: "inv_pending M m N (Some (r, a))"
    and col: "columnPool m a = Some col" "column (base col) \<noteq> []"
    and fd: "find (\<lambda>d. column_equiv M (stored_cells m d) (column (base col))) (columnToRep m) = Some d"
    and dc: "columnPool m d = Some dc"
    and rk: "\<not> ds_rank (columnClasses m) r > ds_rank (columnClasses m) (rep dc)"
  defines "m' \<equiv> m\<lparr>columnClasses := link (columnClasses m) r (rep dc),
                    columnPool := (columnPool m)(a := None),
                    repToColumn := (repToColumn m)[r := None]\<rparr>"
  shows "priv_insert_column M m r = Returns () m'" "inv_pending M m' N None"
    "filed M m r a (column (base col)) m'"
proof -
  note p = inv_pendingD[OF inv]
  note s = priv_insert_column_double_setup[OF inv col fd dc]
  have lr: "ds_rep (link (columnClasses m) r (rep dc)) =
              (\<lambda>k. if ds_rep (columnClasses m) k = r then rep dc else ds_rep (columnClasses m) k)"
    using link_rep[OF p(6) s(7)] s(4) rk by auto
  have rl: "r < length (repToColumn m)" using p(1,2) by simp
  show "priv_insert_column M m r = Returns () m'"
    unfolding s(1) using dc s(3,4) p(3,6) rl
    by (simp add: priv_insert_double_column_def Let_def find_set_def lr m'_def)
  have pool_other: "columnPool m' x = columnPool m x" if "x \<noteq> a" for x
    using that by (simp add: m'_def)
  have cells_other: "stored_cells m' x = stored_cells m x" if "x \<noteq> a" for x
    using that by (simp add: m'_def stored_cells_def)
  show "filed M m r a (column (base col)) m'"
    unfolding filed_def
  proof (intro conjI allI impI)
    fix k assume "ds_rep (columnClasses m) k = r"
    then have "ds_rep (columnClasses m') k = rep dc" by (simp add: m'_def lr)
    moreover have "repToColumn m' ! rep dc = Some d" using s(4,6) by (simp add: m'_def)
    moreover have "stored_cells m' d = column (base dc)" "columnPool m' d \<noteq> None"
      using dc s(3) by (simp_all add: m'_def stored_cells_def)
    ultimately show "case repToColumn m' ! ds_rep (columnClasses m') k of
           None \<Rightarrow> column (base col) = []
         | Some a' \<Rightarrow> columnPool m' a' \<noteq> None \<and> column_equiv M (stored_cells m' a') (column (base col))"
      using s(8) by simp
  next
    fix k assume "ds_rep (columnClasses m) k \<noteq> r"
    then show "repToColumn m' ! ds_rep (columnClasses m') k = repToColumn m ! ds_rep (columnClasses m) k"
      by (simp add: m'_def lr)
  qed (simp_all add: m'_def stored_cells_def lr)
  have dk: "dict_ok M m' N"
    unfolding dict_ok_def
  proof (intro conjI ballI impI)
    show "distinct (columnToRep m')" using p(8) by (simp add: dict_ok_def m'_def)
  next
    fix x assume x: "x \<in> set (columnToRep m')"
    then have x': "x \<in> set (columnToRep m)" by (simp add: m'_def)
    then have xa: "x \<noteq> a" using p(4) by auto
    from dict_okD[OF p(8) x'] obtain c where c: "columnPool m x = Some c" "column (base c) \<noteq> []"
      "rep c < N" "repToColumn m ! rep c = Some x" "ds_rep (columnClasses m) (rep c) = rep c"
      by blast
    have ne: "rep c \<noteq> r" using c(4) p(3) xa by auto
    have "repToColumn m' ! rep c = Some x" using c(4) ne by (simp add: m'_def)
    moreover have "ds_rep (columnClasses m') (rep c) = rep c" using c(5) ne by (simp add: m'_def lr)
    ultimately show "\<exists>col. columnPool m' x = Some col \<and> column (base col) \<noteq> [] \<and> rep col < N \<and>
            repToColumn m' ! rep col = Some x \<and> ds_rep (columnClasses m') (rep col) = rep col"
      using c pool_other[OF xa] by simp
  next
    fix x y assume "x \<in> set (columnToRep m')" "y \<in> set (columnToRep m')" "x \<noteq> y"
    then have "x \<in> set (columnToRep m)" "y \<in> set (columnToRep m)" "x \<noteq> y" by (simp_all add: m'_def)
    moreover from this have "x \<noteq> a" "y \<noteq> a" using p(4) by auto
    ultimately show "\<not> column_equiv M (stored_cells m' x) (stored_cells m' y)"
      using p(8) by (simp add: cells_other dict_ok_def)
  qed
  have sk: "slots_ok m' N None"
    unfolding slots_ok_def
  proof (intro conjI allI impI)
    show "N \<le> length (repToColumn m')" using p(2) by (simp add: m'_def)
  next
    fix r' x assume r': "r' < length (repToColumn m')" and sl: "repToColumn m' ! r' = Some x"
    then have ne: "r' \<noteq> r" by (auto simp: m'_def)
    then have "repToColumn m ! r' = Some x" "r' < length (repToColumn m)"
      using sl r' by (auto simp: m'_def)
    then have old: "x \<in> set (columnToRep m) \<and> (\<exists>col. columnPool m x = Some col \<and> rep col = r')"
      using p(9) ne by (auto simp: slots_ok_def)
    then have "x \<noteq> a" using p(4) by auto
    then show "None = Some (r', x) \<or>
        (x \<in> set (columnToRep m') \<and> (\<exists>col. columnPool m' x = Some col \<and> rep col = r'))"
      using old pool_other[of x] by (auto simp: m'_def)
  qed
  have ck: "classes_ok (columnClasses m') N"
    using classes_ok_link[OF p(7) p(6) s(7) p(1) s(5)] by (simp add: m'_def)
  have "\<forall>x\<ge>poolNext m'. columnPool m' x = None"
    using inv by (auto simp: inv_pending_def m'_def)
  then show "inv_pending M m' N None"
    using dk sk ck by (simp add: inv_pending_def pending_ok_def)
qed


lemma priv_insert_column_double_swap:
  assumes inv: "inv_pending M m N (Some (r, a))"
    and col: "columnPool m a = Some col" "column (base col) \<noteq> []"
    and fd: "find (\<lambda>d. column_equiv M (stored_cells m d) (column (base col))) (columnToRep m) = Some d"
    and dc: "columnPool m d = Some dc"
    and rk: "ds_rank (columnClasses m) r > ds_rank (columnClasses m) (rep dc)"
  defines "m' \<equiv> m\<lparr>columnClasses := link (columnClasses m) r (rep dc),
                    columnPool := ((columnPool m)(a := None))(d \<mapsto> dc\<lparr>rep := r\<rparr>),
                    repToColumn := ((repToColumn m)[r := None])[rep dc := None, r := Some d]\<rparr>"
  shows "priv_insert_column M m r = Returns () m'" "inv_pending M m' N None"
    "filed M m r a (column (base col)) m'"
proof -
  note p = inv_pendingD[OF inv]
  note s = priv_insert_column_double_setup[OF inv col fd dc]
  have lr: "ds_rep (link (columnClasses m) r (rep dc)) =
              (\<lambda>k. if ds_rep (columnClasses m) k = rep dc then r else ds_rep (columnClasses m) k)"
    using link_rep[OF p(6) s(7)] s(4) rk by auto
  have rl: "r < length (repToColumn m)" "rep dc < length (repToColumn m)"
    using p(1,2) s(5) by simp_all
  show "priv_insert_column M m r = Returns () m'"
    unfolding s(1) using dc s(3,4,6) p(3,6) rl
    by (simp add: priv_insert_double_column_def Let_def find_set_def lr m'_def)
  have slot_r: "repToColumn m' ! r = Some d" using rl by (simp add: m'_def)
  have slot_rd: "repToColumn m' ! rep dc = None" using rl s(4) by (simp add: m'_def)
  have slot_other: "repToColumn m' ! x = repToColumn m ! x" if "x \<noteq> r" "x \<noteq> rep dc" for x
    using that by (simp add: m'_def)
  have pool_d: "columnPool m' d = Some (dc\<lparr>rep := r\<rparr>)" by (simp add: m'_def)
  have pool_other: "columnPool m' x = columnPool m x" if "x \<noteq> a" "x \<noteq> d" for x
    using that by (simp add: m'_def)
  have cells_other: "stored_cells m' x = stored_cells m x" if "x \<noteq> a" for x
    using that dc by (simp add: m'_def stored_cells_def)
  have rep': "ds_rep (columnClasses m') k =
      (if ds_rep (columnClasses m) k = rep dc then r else ds_rep (columnClasses m) k)" for k
    by (simp add: m'_def lr)
  show "filed M m r a (column (base col)) m'"
    unfolding filed_def
  proof (intro conjI allI impI)
    fix k assume "ds_rep (columnClasses m) k = r"
    then have "ds_rep (columnClasses m') k = r" by (simp add: rep')
    moreover have "stored_cells m' d = column (base dc)"
      using pool_d by (simp add: stored_cells_def)
    ultimately show "case repToColumn m' ! ds_rep (columnClasses m') k of
           None \<Rightarrow> column (base col) = []
         | Some a' \<Rightarrow> columnPool m' a' \<noteq> None \<and> column_equiv M (stored_cells m' a') (column (base col))"
      using s(8) slot_r pool_d by simp
  next
    fix k assume k: "ds_rep (columnClasses m) k \<noteq> r"
    show "repToColumn m' ! ds_rep (columnClasses m') k = repToColumn m ! ds_rep (columnClasses m) k"
    proof (cases "ds_rep (columnClasses m) k = rep dc")
      case True
      then show ?thesis using slot_r s(6) by (simp add: rep')
    next
      case False
      then show ?thesis using k slot_other by (simp add: rep')
    qed
  next
    fix b assume "b \<noteq> a"
    then show "stored_cells m' b = stored_cells m b" by (rule cells_other)
  qed (simp_all add: m'_def lr)
  have dk: "dict_ok M m' N"
    unfolding dict_ok_def
  proof (intro conjI ballI impI)
    show "distinct (columnToRep m')" using p(8) by (simp add: dict_ok_def m'_def)
  next
    fix x assume x: "x \<in> set (columnToRep m')"
    then have x': "x \<in> set (columnToRep m)" by (simp add: m'_def)
    then have xa: "x \<noteq> a" using p(4) by auto
    from dict_okD[OF p(8) x'] obtain c where c: "columnPool m x = Some c" "column (base c) \<noteq> []"
      "rep c < N" "repToColumn m ! rep c = Some x" "ds_rep (columnClasses m) (rep c) = rep c"
      by blast
    show "\<exists>col. columnPool m' x = Some col \<and> column (base col) \<noteq> [] \<and> rep col < N \<and>
            repToColumn m' ! rep col = Some x \<and> ds_rep (columnClasses m') (rep col) = rep col"
    proof (cases "x = d")
      case True
      have "column (base dc) \<noteq> []" using c(1,2) dc True by simp
      moreover have "ds_rep (columnClasses m') r = r" using p(6) s(4) by (simp add: rep')
      ultimately show ?thesis using True pool_d slot_r p(1) by simp
    next
      case False
      have ne: "rep c \<noteq> r" using c(4) p(3) xa by auto
      have ne': "rep c \<noteq> rep dc" using c(4) s(6) False by auto
      have "ds_rep (columnClasses m') (rep c) = rep c" using c(5) ne' by (simp add: rep')
      then show ?thesis using c pool_other[OF xa False] slot_other[OF ne ne'] by simp
    qed
  next
    fix x y assume "x \<in> set (columnToRep m')" "y \<in> set (columnToRep m')" "x \<noteq> y"
    then have "x \<in> set (columnToRep m)" "y \<in> set (columnToRep m)" "x \<noteq> y" by (simp_all add: m'_def)
    moreover from this have "x \<noteq> a" "y \<noteq> a" using p(4) by auto
    ultimately show "\<not> column_equiv M (stored_cells m' x) (stored_cells m' y)"
      using p(8) by (simp add: cells_other dict_ok_def)
  qed
  have sk: "slots_ok m' N None"
    unfolding slots_ok_def
  proof (intro conjI allI impI)
    show "N \<le> length (repToColumn m')" using p(2) by (simp add: m'_def)
  next
    fix r' x assume r': "r' < length (repToColumn m')" and sl: "repToColumn m' ! r' = Some x"
    show "None = Some (r', x) \<or>
        (x \<in> set (columnToRep m') \<and> (\<exists>col. columnPool m' x = Some col \<and> rep col = r'))"
    proof (cases "r' = r")
      case True
      then have "x = d" using sl slot_r by simp
      then show ?thesis using True s(2) pool_d by (simp add: m'_def)
    next
      case False
      then have ne': "r' \<noteq> rep dc" using sl slot_rd by auto
      then have "repToColumn m ! r' = Some x" "r' < length (repToColumn m)"
        using sl r' slot_other[OF False ne'] by (auto simp: m'_def)
      then have old: "x \<in> set (columnToRep m)" "\<exists>col. columnPool m x = Some col \<and> rep col = r'"
        using p(9) False by (auto simp: slots_ok_def)
      then have "x \<noteq> a" using p(4) by auto
      moreover have "x \<noteq> d" using old(2) dc ne' by auto
      ultimately show ?thesis using old pool_other[of x] by (auto simp: m'_def)
    qed
  qed
  have ck: "classes_ok (columnClasses m') N"
    using classes_ok_link[OF p(7) p(6) s(7) p(1) s(5)] by (simp add: m'_def)
  have "d < poolNext m" using dc inv by (auto simp: inv_pending_def not_le[symmetric])
  then have "\<forall>x\<ge>poolNext m'. columnPool m' x = None"
    using inv by (auto simp: inv_pending_def m'_def)
  then show "inv_pending M m' N None"
    using dk sk ck by (simp add: inv_pending_def pending_ok_def)
qed

text \<open>All cases together: \<open>_insert_column\<close> returns and restores the invariant.\<close>

lemma priv_insert_column_pending:
  assumes inv: "inv_pending M m N (Some (r, a))"
  shows "\<exists>m'. priv_insert_column M m r = Returns () m' \<and> inv_pending M m' N None \<and>
           filed M m r a (stored_cells m a) m'"
proof -
  from inv_pendingD(5)[OF inv] obtain col where col: "columnPool m a = Some col" by blast
  then have cells: "stored_cells m a = column (base col)" by (simp add: stored_cells_def)
  show ?thesis
  proof (cases "column (base col) = []")
    case True
    from priv_insert_column_empty[OF inv col True] show ?thesis unfolding cells by blast
  next
    case False
    show ?thesis
    proof (cases "find (\<lambda>d. column_equiv M (stored_cells m d) (column (base col))) (columnToRep m)")
      case None
      then have "\<forall>d\<in>set (columnToRep m). \<not> column_equiv M (stored_cells m d) (column (base col))"
        by (simp add: find_None_iff')
      from priv_insert_column_fresh[OF inv col False this] show ?thesis unfolding cells by blast
    next
      case (Some d)
      then have "d \<in> set (columnToRep m)" by (auto simp: find_Some_iff)
      from dict_okD[OF inv_pendingD(8)[OF inv] this] obtain dc where dc: "columnPool m d = Some dc"
        by blast
      show ?thesis
      proof (cases "ds_rank (columnClasses m) r > ds_rank (columnClasses m) (rep dc)")
        case True
        from priv_insert_column_double_swap[OF inv col False Some dc True] show ?thesis
          unfolding cells by blast
      next
        case False': False
        from priv_insert_column_double_keep[OF inv col False Some dc False'] show ?thesis
          unfolding cells by blast
      qed
    qed
  qed
qed

lemma filedD:
  assumes "filed M m r a cells m'"
  shows "nextColumnIndex m' = nextColumnIndex m" "poolNext m' = poolNext m"
    "length (repToColumn m') = length (repToColumn m)"
    "\<And>k. ds_rep (columnClasses m) k = r \<Longrightarrow>
        (case repToColumn m' ! ds_rep (columnClasses m') k of
           None \<Rightarrow> cells = []
         | Some a' \<Rightarrow> columnPool m' a' \<noteq> None \<and> column_equiv M (stored_cells m' a') cells)"
    "\<And>k. ds_rep (columnClasses m) k \<noteq> r \<Longrightarrow> ds_rep (columnClasses m) k < length (repToColumn m) \<Longrightarrow>
        repToColumn m' ! ds_rep (columnClasses m') k = repToColumn m ! ds_rep (columnClasses m) k"
    "\<And>b. b \<noteq> a \<Longrightarrow> stored_cells m' b = stored_cells m b"
    "\<And>k l. ds_rep (columnClasses m) k = ds_rep (columnClasses m) l \<Longrightarrow>
        ds_rep (columnClasses m') k = ds_rep (columnClasses m') l"
  using assms unfolding filed_def by blast+

text \<open>The empty matrix has the invariant.\<close>

lemma matrix_inv_init: "matrix_inv M (Base_matrix_with_column_compression_init n0)"
  by (simp add: matrix_inv_def inv_pending_def classes_ok_def dict_ok_def slots_ok_def
      pending_ok_def Base_matrix_with_column_compression_init_def disjoint_sets_init_def)

lemma inv_pending_next [simp]:
  "inv_pending M (m\<lparr>nextColumnIndex := x\<rparr>) N P = inv_pending M m N P"
  by (simp add: inv_pending_def dict_ok_def slots_ok_def pending_ok_def split: option.split)

lemma matrix_invD:
  assumes "matrix_inv M m"
  shows "classes_ok (columnClasses m) (nextColumnIndex m)" "dict_ok M m (nextColumnIndex m)"
    "nextColumnIndex m \<le> length (repToColumn m)"
    "\<And>x. poolNext m \<le> x \<Longrightarrow> columnPool m x = None"
    "\<And>r x. r < length (repToColumn m) \<Longrightarrow> repToColumn m ! r = Some x \<Longrightarrow>
        x \<in> set (columnToRep m) \<and> (\<exists>col. columnPool m x = Some col \<and> rep col = r)"
  using assms by (auto simp: matrix_inv_def inv_pending_def slots_ok_def)

text \<open>\<open>insert_boundary\<close> makes the new column pending and files it.\<close>

lemma insert_boundary_pending:
  fixes boundary :: "(nat \<times> nat) list" and dimension :: int
  assumes inv: "matrix_inv M m"
  shows "\<exists>pre. insert_boundary M m boundary dimension =
           (case priv_insert_column M pre (nextColumnIndex m) of
              Throws e m2 \<Rightarrow> Throws e m2
            | Returns _ m2 \<Rightarrow> Returns () (m2\<lparr>nextColumnIndex := Suc (nextColumnIndex m2)\<rparr>)) \<and>
          inv_pending M pre (Suc (nextColumnIndex m)) (Some (nextColumnIndex m, poolNext m)) \<and>
          columnClasses pre = columnClasses m \<and> nextColumnIndex pre = nextColumnIndex m \<and>
          (\<forall>x<nextColumnIndex m. repToColumn pre ! x = repToColumn m ! x) \<and>
          (\<forall>x. x \<noteq> poolNext m \<longrightarrow> stored_cells pre x = stored_cells m x) \<and>
          stored_cells pre (poolNext m) = boundary_cells M boundary"
proof -
  define N where "N = nextColumnIndex m"
  define a where "a = poolNext m"
  define d where "d = (if dimension = - 1
               then (if length boundary = 0 then 0 else int (length boundary) - 1)
               else dimension)"
  define m0 where "m0 = m\<lparr>columnPool := (columnPool m)(a \<mapsto> \<lparr>base = Naive_vector_column_of_dim M boundary d, rep = 0\<rparr>),
                 poolNext := Suc a\<rparr>"
  define pre where "pre = (if length (repToColumn m) = N
                   then m0\<lparr>columnClasses := link (columnClasses m) N N, repToColumn := repToColumn m @ [Some a]\<rparr>
                   else m0\<lparr>repToColumn := (repToColumn m)[N := Some a]\<rparr>)"
  note i = matrix_invD[OF inv]
  have nx: "nextColumnIndex pre = N" by (simp add: pre_def m0_def N_def)
  have ca: "stored_cells pre a = boundary_cells M boundary"
    by (simp add: pre_def m0_def stored_cells_def Naive_vector_column_of_dim_def)
  have ib: "insert_boundary M m boundary dimension =
           (case priv_insert_column M pre N of
              Throws e m2 \<Rightarrow> Throws e m2
            | Returns _ m2 \<Rightarrow> Returns () (m2\<lparr>nextColumnIndex := Suc (nextColumnIndex m2)\<rparr>))"
    using i(3) by (simp add: insert_boundary_def Let_def pre_def m0_def a_def N_def d_def)
  have cls: "columnClasses pre = columnClasses m" by (simp add: pre_def m0_def)
  have dict: "columnToRep pre = columnToRep m" by (simp add: pre_def m0_def)
  have pool: "columnPool pre = (columnPool m)(a \<mapsto> \<lparr>base = Naive_vector_column_of_dim M boundary d, rep = 0\<rparr>)"
    by (simp add: pre_def m0_def)
  have a_new: "columnPool m a = None" using i(4) by (simp add: a_def)
  have a_notin: "a \<notin> set (columnToRep m)"
  proof
    assume "a \<in> set (columnToRep m)"
    from dict_okD[OF i(2) this] a_new show False by auto
  qed
  have len: "N < length (repToColumn pre)" "length (repToColumn m) \<le> length (repToColumn pre)"
    using i(3) by (auto simp: pre_def m0_def N_def)
  have slot_N: "repToColumn pre ! N = Some a"
    using i(3) by (auto simp: pre_def m0_def N_def nth_append)
  have slot_other: "repToColumn pre ! x = repToColumn m ! x" if "x < N" for x
    using that i(3) by (auto simp: pre_def m0_def N_def nth_append)
  have slot_other': "repToColumn pre ! x = repToColumn m ! x \<and> x < length (repToColumn m)"
    if "x < length (repToColumn pre)" "x \<noteq> N" for x
    using that i(3) by (auto simp: pre_def m0_def N_def nth_append)
  have cells_other: "stored_cells pre x = stored_cells m x" if "x \<noteq> a" for x
    using that by (simp add: stored_cells_def pool)
  have c1: "ds_rep (columnClasses m) (ds_rep (columnClasses m) k) = ds_rep (columnClasses m) k" for k
    using i(1) by (simp add: classes_ok_def)
  have c2: "ds_rep (columnClasses m) k = k" if "N \<le> k" for k
    using i(1) that by (simp add: classes_ok_def N_def)
  have c3: "ds_rep (columnClasses m) k < N" if "k < N" for k
    using i(1) that by (simp add: classes_ok_def N_def)
  have c4: "ds_rep (columnClasses m) k < Suc N" if "k < Suc N" for k
  proof (cases "k < N")
    case True
    from c3[OF this] show ?thesis by simp
  next
    case False
    then have "N \<le> k" by simp
    from c2[OF this] that show ?thesis by simp
  qed
  have ck: "classes_ok (columnClasses pre) (Suc N)"
    unfolding cls classes_ok_def using c1 c2 c4 by simp
  have dk: "dict_ok M pre (Suc N)"
    unfolding dict_ok_def dict
  proof (intro conjI ballI impI)
    show "distinct (columnToRep m)" using i(2) by (simp add: dict_ok_def)
  next
    fix x assume x: "x \<in> set (columnToRep m)"
    then have xa: "x \<noteq> a" using a_notin by auto
    from dict_okD[OF i(2) x] obtain c where c: "columnPool m x = Some c" "column (base c) \<noteq> []"
      "rep c < N" "repToColumn m ! rep c = Some x" "ds_rep (columnClasses m) (rep c) = rep c"
      unfolding N_def by blast
    then show "\<exists>col. columnPool pre x = Some col \<and> column (base col) \<noteq> [] \<and> rep col < Suc N \<and>
            repToColumn pre ! rep col = Some x \<and> ds_rep (columnClasses pre) (rep col) = rep col"
      using xa slot_other[of "rep c"] by (simp add: pool cls)
  next
    fix x y assume "x \<in> set (columnToRep m)" "y \<in> set (columnToRep m)" "x \<noteq> y"
    moreover from this have "x \<noteq> a" "y \<noteq> a" using a_notin by auto
    ultimately show "\<not> column_equiv M (stored_cells pre x) (stored_cells pre y)"
      using i(2) by (simp add: cells_other dict_ok_def)
  qed
  have sk: "slots_ok pre (Suc N) (Some (N, a))"
    unfolding slots_ok_def
  proof (intro conjI allI impI)
    show "Suc N \<le> length (repToColumn pre)" using len by simp
  next
    fix r' x assume r': "r' < length (repToColumn pre)" and sl: "repToColumn pre ! r' = Some x"
    show "Some (N, a) = Some (r', x) \<or>
        (x \<in> set (columnToRep pre) \<and> (\<exists>col. columnPool pre x = Some col \<and> rep col = r'))"
    proof (cases "r' = N")
      case True
      then show ?thesis using sl slot_N by simp
    next
      case False
      from slot_other'[OF r' False] sl have "repToColumn m ! r' = Some x" "r' < length (repToColumn m)"
        by simp_all
      from i(5)[OF this(2,1)] have old: "x \<in> set (columnToRep m)"
        "\<exists>col. columnPool m x = Some col \<and> rep col = r'" by simp_all
      then have "x \<noteq> a" using a_notin by auto
      then show ?thesis using old by (simp add: dict pool)
    qed
  qed
  have pk: "pending_ok pre (Suc N) (Some (N, a))"
    using slot_N a_notin c2[of N] by (simp add: pending_ok_def dict pool cls)
  have "\<forall>x\<ge>poolNext pre. columnPool pre x = None"
    using i(4) by (auto simp: pre_def m0_def a_def)
  then have ip: "inv_pending M pre (Suc N) (Some (N, a))"
    using ck dk sk pk by (simp add: inv_pending_def)
  show ?thesis
    unfolding N_def[symmetric] a_def[symmetric]
    using ib ip cls nx slot_other cells_other ca by (intro exI[of _ pre]) simp
qed


lemma insert_boundary_inv:
  assumes inv: "matrix_inv M m"
  shows "\<exists>m'. insert_boundary M m boundary dimension = Returns () m' \<and> matrix_inv M m' \<and>
           nextColumnIndex m' = Suc (nextColumnIndex m) \<and>
           (\<forall>k<nextColumnIndex m. repToColumn m' ! ds_rep (columnClasses m') k =
                                  repToColumn m ! ds_rep (columnClasses m) k) \<and>
           (\<forall>b<poolNext m. stored_cells m' b = stored_cells m b) \<and>
           (case repToColumn m' ! ds_rep (columnClasses m') (nextColumnIndex m) of
              None \<Rightarrow> boundary = []
            | Some a' \<Rightarrow> columnPool m' a' \<noteq> None \<and>
                column_equiv M (stored_cells m' a') (boundary_cells M boundary))"
proof -
  note i = matrix_invD[OF inv]
  let ?N = "nextColumnIndex m" and ?a = "poolNext m"
  from insert_boundary_pending[OF inv, where boundary = boundary and dimension = dimension]
  obtain pre where p: "insert_boundary M m boundary dimension =
           (case priv_insert_column M pre ?N of
              Throws e m2 \<Rightarrow> Throws e m2
            | Returns _ m2 \<Rightarrow> Returns () (m2\<lparr>nextColumnIndex := Suc (nextColumnIndex m2)\<rparr>))"
    "inv_pending M pre (Suc ?N) (Some (?N, ?a))"
    "columnClasses pre = columnClasses m" "nextColumnIndex pre = ?N"
    "\<And>x. x < ?N \<Longrightarrow> repToColumn pre ! x = repToColumn m ! x"
    "\<And>x. x \<noteq> ?a \<Longrightarrow> stored_cells pre x = stored_cells m x"
    "stored_cells pre ?a = boundary_cells M boundary"
    by blast
  from priv_insert_column_pending[OF p(2)] obtain m2 where m2:
    "priv_insert_column M pre ?N = Returns () m2"
    and inv2: "inv_pending M m2 (Suc ?N) None"
    and f: "filed M pre ?N ?a (boundary_cells M boundary) m2"
    unfolding p(7) by blast
  let ?m' = "m2\<lparr>nextColumnIndex := Suc (nextColumnIndex m2)\<rparr>"
  note fd = filedD[OF f]
  have next2: "nextColumnIndex m2 = ?N" using fd(1) p(4) by simp
  have ret: "insert_boundary M m boundary dimension = Returns () ?m'"
    unfolding p(1) m2 by simp
  have minv: "matrix_inv M ?m'"
    using inv2 by (simp add: matrix_inv_def next2)
  have repN: "ds_rep (columnClasses m) ?N = ?N" using i(1) by (simp add: classes_ok_def)
  have lt: "ds_rep (columnClasses m) k < ?N" if "k < ?N" for k
    using i(1) that by (simp add: classes_ok_def)
  have frame: "repToColumn ?m' ! ds_rep (columnClasses ?m') k = repToColumn m ! ds_rep (columnClasses m) k"
    if "k < ?N" for k
  proof -
    have "ds_rep (columnClasses pre) k \<noteq> ?N" using lt[OF that] by (simp add: p(3))
    moreover have "ds_rep (columnClasses pre) k < length (repToColumn pre)"
      using lt[OF that] inv_pendingD(2)[OF p(2)] by (simp add: p(3))
    ultimately have "repToColumn m2 ! ds_rep (columnClasses m2) k =
        repToColumn pre ! ds_rep (columnClasses pre) k" by (rule fd(5))
    then show ?thesis using p(5)[OF lt[OF that]] by (simp add: p(3))
  qed
  have cells: "stored_cells ?m' b = stored_cells m b" if "b < ?a" for b
    using fd(6)[of b] that p(6)[of b] by simp
  have "ds_rep (columnClasses pre) ?N = ?N" using repN by (simp add: p(3))
  from fd(4)[OF this] have new: "case repToColumn ?m' ! ds_rep (columnClasses ?m') ?N of
              None \<Rightarrow> boundary = []
            | Some a' \<Rightarrow> columnPool ?m' a' \<noteq> None \<and>
                column_equiv M (stored_cells ?m' a') (boundary_cells M boundary)"
    by (simp add: boundary_cells_def split: option.splits)
  show ?thesis
    using ret minv next2 frame cells new by (intro exI[of _ ?m']) simp
qed

text \<open>\<open>add_to\<close> on a target that is stored: the target is pending while it is changed.\<close>

lemma dict_erase_stored:
  assumes dk: "dict_ok M m N" and a: "a \<in> set (columnToRep m)"
  shows "dict_erase M m a = m\<lparr>columnToRep := filter (\<lambda>d. d \<noteq> a) (columnToRep m)\<rparr>"
proof -
  have "column_equiv M (stored_cells m d) (stored_cells m a) \<longleftrightarrow> d = a"
    if "d \<in> set (columnToRep m)" for d
    using dk a that unfolding dict_ok_def by (cases "d = a") auto
  then have "filter (\<lambda>d. \<not> column_equiv M (stored_cells m d) (stored_cells m a)) (columnToRep m) =
             filter (\<lambda>d. d \<noteq> a) (columnToRep m)"
    by (intro filter_cong) auto
  then show ?thesis by (simp add: dict_erase_def)
qed

lemma get_column_Returns:
  "get_column m s = Returns sref m' \<longleftrightarrow>
     m' = m \<and> ds_rep (columnClasses m) s < length (repToColumn m) \<and>
     sref = (case repToColumn m ! ds_rep (columnClasses m) s of None \<Rightarrow> empty_column | Some b \<Rightarrow> Stored b)"
  by (auto simp: get_column_def find_set_def Let_def split: option.splits)

lemma add_to_pending:
  assumes inv: "matrix_inv M m"
    and rt: "ds_rep (columnClasses m) t < length (repToColumn m)"
    and slot: "repToColumn m ! ds_rep (columnClasses m) t = Some a"
    and src: "get_column m s = Returns sref m"
  shows "\<exists>target pre. columnPool m a = Some target \<and>
           add_to M m s t = priv_insert_column M pre (ds_rep (columnClasses m) t) \<and>
           inv_pending M pre (nextColumnIndex m) (Some (ds_rep (columnClasses m) t, a)) \<and>
           columnClasses pre = columnClasses m \<and> nextColumnIndex pre = nextColumnIndex m \<and>
           repToColumn pre = repToColumn m \<and>
           (\<forall>x. x \<noteq> a \<longrightarrow> stored_cells pre x = stored_cells m x) \<and>
           stored_cells pre a =
             column (plus_eq_range M (base target) (column (column_of m sref)))"
proof -
  note i = matrix_invD[OF inv]
  define N where "N = nextColumnIndex m"
  define r where "r = ds_rep (columnClasses m) t"
  from i(5)[OF rt slot] obtain target where a_in: "a \<in> set (columnToRep m)"
    and target: "columnPool m a = Some target" and rep_t: "rep target = r"
    unfolding r_def by blast
  from dict_okD[OF i(2) a_in] target rep_t have r: "r < N" "ds_rep (columnClasses m) r = r"
    unfolding N_def by auto
  define m1 where "m1 = m\<lparr>columnToRep := filter (\<lambda>d. d \<noteq> a) (columnToRep m)\<rparr>"
  define pre where "pre = m1\<lparr>columnPool := (columnPool m)
      (a \<mapsto> target\<lparr>base := plus_eq_range M (base target) (column (column_of m sref))\<rparr>)\<rparr>"
  have erase: "dict_erase M m a = m1"
    unfolding m1_def by (rule dict_erase_stored[OF i(2) a_in])
  have src1: "get_column m1 s = Returns sref m1"
    using src by (simp add: get_column_Returns m1_def)
  have co: "column_of m1 sref = column_of m sref"
    by (simp add: column_of_def m1_def split: column_ref.split)
  have at: "add_to M m s t = priv_insert_column M pre r"
    using rt slot target
    by (simp add: add_to_def Let_def find_set_def erase src1 co pre_def r_def[symmetric])
       (simp add: m1_def)
  have cls: "columnClasses pre = columnClasses m" by (simp add: pre_def m1_def)
  have nx: "nextColumnIndex pre = nextColumnIndex m" by (simp add: pre_def m1_def)
  have slots: "repToColumn pre = repToColumn m" by (simp add: pre_def m1_def)
  have dict: "set (columnToRep pre) = set (columnToRep m) - {a}" by (auto simp: pre_def m1_def)
  have pool_other: "columnPool pre x = columnPool m x" if "x \<noteq> a" for x
    using that by (simp add: pre_def m1_def)
  have cells_other: "stored_cells pre x = stored_cells m x" if "x \<noteq> a" for x
    using that by (simp add: stored_cells_def pool_other)
  have cells_a: "stored_cells pre a =
      column (plus_eq_range M (base target) (column (column_of m sref)))"
    by (simp add: pre_def stored_cells_def)
  have ck: "classes_ok (columnClasses pre) N" using i(1) by (simp add: cls N_def)
  have dk: "dict_ok M pre N"
    unfolding dict_ok_def
  proof (intro conjI ballI impI)
    show "distinct (columnToRep pre)" using i(2) by (simp add: dict_ok_def pre_def m1_def)
  next
    fix x assume "x \<in> set (columnToRep pre)"
    then have x: "x \<in> set (columnToRep m)" and xa: "x \<noteq> a" using dict by auto
    from dict_okD[OF i(2) x] obtain c where c: "columnPool m x = Some c" "column (base c) \<noteq> []"
      "rep c < N" "repToColumn m ! rep c = Some x" "ds_rep (columnClasses m) (rep c) = rep c"
      unfolding N_def by blast
    then show "\<exists>col. columnPool pre x = Some col \<and> column (base col) \<noteq> [] \<and> rep col < N \<and>
            repToColumn pre ! rep col = Some x \<and> ds_rep (columnClasses pre) (rep col) = rep col"
      using pool_other[OF xa] by (simp add: cls slots)
  next
    fix x y assume "x \<in> set (columnToRep pre)" "y \<in> set (columnToRep pre)" "x \<noteq> y"
    then have "x \<in> set (columnToRep m)" "y \<in> set (columnToRep m)" "x \<noteq> y" "x \<noteq> a" "y \<noteq> a"
      using dict by auto
    then show "\<not> column_equiv M (stored_cells pre x) (stored_cells pre y)"
      using i(2) by (simp add: cells_other dict_ok_def)
  qed
  have sk: "slots_ok pre N (Some (r, a))"
    unfolding slots_ok_def
  proof (intro conjI allI impI)
    show "N \<le> length (repToColumn pre)" using i(3) by (simp add: slots N_def)
  next
    fix r' x assume r': "r' < length (repToColumn pre)" and sl: "repToColumn pre ! r' = Some x"
    then have "r' < length (repToColumn m)" "repToColumn m ! r' = Some x" by (simp_all add: slots)
    from i(5)[OF this] have old: "x \<in> set (columnToRep m)"
      "\<exists>col. columnPool m x = Some col \<and> rep col = r'" by simp_all
    show "Some (r, a) = Some (r', x) \<or>
        (x \<in> set (columnToRep pre) \<and> (\<exists>col. columnPool pre x = Some col \<and> rep col = r'))"
    proof (cases "x = a")
      case True
      then have "r' = r" using old(2) target rep_t by auto
      then show ?thesis using True by simp
    next
      case False
      then show ?thesis using old dict pool_other[OF False] by simp
    qed
  qed
  have "columnPool pre a \<noteq> None" "a \<notin> set (columnToRep pre)"
    using dict by (simp_all add: pre_def)
  then have pk: "pending_ok pre N (Some (r, a))"
    using r slot by (simp add: pending_ok_def cls slots r_def)
  have "\<forall>x\<ge>poolNext pre. columnPool pre x = None"
    using i(4) target by (auto simp: pre_def m1_def)
  then have ip: "inv_pending M pre N (Some (r, a))"
    using ck dk sk pk by (simp add: inv_pending_def)
  show ?thesis
    unfolding N_def[symmetric] r_def[symmetric]
    using target at ip cls nx slots cells_other cells_a
    by (intro exI[of _ target] exI[of _ pre]) (simp add: N_def)
qed

lemma add_to_inv:
  assumes inv: "matrix_inv M m"
    and rt: "ds_rep (columnClasses m) t < length (repToColumn m)"
    and slot: "repToColumn m ! ds_rep (columnClasses m) t = Some a"
    and src: "get_column m s = Returns sref m"
  shows "\<exists>m' target. columnPool m a = Some target \<and> add_to M m s t = Returns () m' \<and>
           matrix_inv M m' \<and> nextColumnIndex m' = nextColumnIndex m \<and>
           length (repToColumn m') = length (repToColumn m) \<and>
           (\<forall>k. ds_rep (columnClasses m) k = ds_rep (columnClasses m) t \<longrightarrow>
              ds_rep (columnClasses m') k = ds_rep (columnClasses m') t \<and>
              (case repToColumn m' ! ds_rep (columnClasses m') k of
                 None \<Rightarrow> column (plus_eq_range M (base target) (column (column_of m sref))) = []
               | Some a' \<Rightarrow> columnPool m' a' \<noteq> None \<and>
                   column_equiv M (stored_cells m' a')
                     (column (plus_eq_range M (base target) (column (column_of m sref)))))) \<and>
           (\<forall>k. ds_rep (columnClasses m) k \<noteq> ds_rep (columnClasses m) t \<longrightarrow>
              ds_rep (columnClasses m) k < length (repToColumn m) \<longrightarrow>
              repToColumn m' ! ds_rep (columnClasses m') k = repToColumn m ! ds_rep (columnClasses m) k) \<and>
           (\<forall>b. b \<noteq> a \<longrightarrow> stored_cells m' b = stored_cells m b)"
proof -
  let ?r = "ds_rep (columnClasses m) t"
  from add_to_pending[OF inv rt slot src] obtain target pre where
    p: "columnPool m a = Some target" "add_to M m s t = priv_insert_column M pre ?r"
      "inv_pending M pre (nextColumnIndex m) (Some (?r, a))"
      "columnClasses pre = columnClasses m" "nextColumnIndex pre = nextColumnIndex m"
      "repToColumn pre = repToColumn m"
      "\<And>x. x \<noteq> a \<Longrightarrow> stored_cells pre x = stored_cells m x"
      "stored_cells pre a = column (plus_eq_range M (base target) (column (column_of m sref)))"
    by blast
  from priv_insert_column_pending[OF p(3)] obtain m' where m':
    "priv_insert_column M pre ?r = Returns () m'" "inv_pending M m' (nextColumnIndex m) None"
    "filed M pre ?r a (column (plus_eq_range M (base target) (column (column_of m sref)))) m'"
    unfolding p(8) by blast
  note fd = filedD[OF m'(3), unfolded p(4,5,6)]
  let ?sum = "column (plus_eq_range M (base target) (column (column_of m sref)))"
  have c1: "add_to M m s t = Returns () m'" using p(2) m'(1) by simp
  have c2: "matrix_inv M m'" using m'(2) fd(1) by (simp add: matrix_inv_def)
  have c3: "\<forall>k. ds_rep (columnClasses m) k = ds_rep (columnClasses m) t \<longrightarrow>
              ds_rep (columnClasses m') k = ds_rep (columnClasses m') t \<and>
              (case repToColumn m' ! ds_rep (columnClasses m') k of
                 None \<Rightarrow> ?sum = []
               | Some a' \<Rightarrow> columnPool m' a' \<noteq> None \<and> column_equiv M (stored_cells m' a') ?sum)"
  proof (intro allI impI conjI)
    fix k assume k: "ds_rep (columnClasses m) k = ds_rep (columnClasses m) t"
    from fd(7)[OF this] show "ds_rep (columnClasses m') k = ds_rep (columnClasses m') t" .
    from fd(4)[OF k] show "case repToColumn m' ! ds_rep (columnClasses m') k of
                 None \<Rightarrow> ?sum = []
               | Some a' \<Rightarrow> columnPool m' a' \<noteq> None \<and> column_equiv M (stored_cells m' a') ?sum" .
  qed
  have c4: "\<forall>k. ds_rep (columnClasses m) k \<noteq> ds_rep (columnClasses m) t \<longrightarrow>
              ds_rep (columnClasses m) k < length (repToColumn m) \<longrightarrow>
              repToColumn m' ! ds_rep (columnClasses m') k = repToColumn m ! ds_rep (columnClasses m) k"
    using fd(5) by blast
  have c5: "\<forall>b. b \<noteq> a \<longrightarrow> stored_cells m' b = stored_cells m b"
  proof (intro allI impI)
    fix b :: nat assume "b \<noteq> a"
    from fd(6)[OF this] p(7)[OF this] show "stored_cells m' b = stored_cells m b" by simp
  qed
  show ?thesis
    apply (rule exI[of _ m'])
    apply (rule exI[of _ target])
    apply (intro conjI)
          apply (rule p(1))
         apply (rule c1)
        apply (rule c2)
       apply (rule fd(1))
      apply (rule fd(3))
     apply (rule c3)
    apply (rule c4)
    apply (rule c5)
    done
qed

lemma add_to_ReturnsD:
  assumes "add_to M m s t = Returns u m'"
  shows "ds_rep (columnClasses m) t < length (repToColumn m)"
    "\<exists>a. repToColumn m ! ds_rep (columnClasses m) t = Some a"
    "\<exists>sref. get_column m s = Returns sref m"
proof -
  show rt: "ds_rep (columnClasses m) t < length (repToColumn m)"
    using assms by (auto simp: add_to_def Let_def find_set_def split: if_splits)
  show sl: "\<exists>a. repToColumn m ! ds_rep (columnClasses m) t = Some a"
    using assms rt by (auto simp: add_to_def Let_def find_set_def split: option.splits)
  then obtain a where a: "repToColumn m ! ds_rep (columnClasses m) t = Some a" by blast
  have "\<exists>sref m2. get_column (dict_erase M m a) s = Returns sref m2"
    using assms rt a
    by (auto simp: add_to_def Let_def find_set_def split: option.splits outcome.splits)
  then show "\<exists>sref. get_column m s = Returns sref m"
    by (auto simp: get_column_Returns dict_erase_def)
qed

lemma returns_state_of: "returns out \<Longrightarrow> out = Returns () (state_of out)"
  by (cases out) simp_all

lemma insert_boundary_step:
  assumes inv: "matrix_inv M m" and ret: "insert_boundary M m boundary dimension = Returns u m'"
  shows "matrix_inv M m'" "nextColumnIndex m' = Suc (nextColumnIndex m)"
    "\<And>k. k < nextColumnIndex m \<Longrightarrow> repToColumn m ! ds_rep (columnClasses m) k = None \<Longrightarrow>
       repToColumn m' ! ds_rep (columnClasses m') k = None"
proof -
  from insert_boundary_inv[OF inv, of boundary dimension] ret
  have *: "matrix_inv M m'" "nextColumnIndex m' = Suc (nextColumnIndex m)"
    "\<forall>k<nextColumnIndex m. repToColumn m' ! ds_rep (columnClasses m') k =
                                  repToColumn m ! ds_rep (columnClasses m) k"
    by auto
  show "matrix_inv M m'" "nextColumnIndex m' = Suc (nextColumnIndex m)" by (rule *)+
  show "repToColumn m' ! ds_rep (columnClasses m') k = None"
    if "k < nextColumnIndex m" "repToColumn m ! ds_rep (columnClasses m) k = None" for k
    using *(3) that by simp
qed

lemma add_to_step:
  assumes inv: "matrix_inv M m" and ret: "add_to M m s t = Returns u m'"
  shows "matrix_inv M m'" "nextColumnIndex m' = nextColumnIndex m"
    "\<And>k. k < nextColumnIndex m \<Longrightarrow> repToColumn m ! ds_rep (columnClasses m) k = None \<Longrightarrow>
       repToColumn m' ! ds_rep (columnClasses m') k = None"
proof -
  note i = matrix_invD[OF inv]
  from add_to_ReturnsD[OF ret] obtain a sref where
    rt: "ds_rep (columnClasses m) t < length (repToColumn m)"
    and slot: "repToColumn m ! ds_rep (columnClasses m) t = Some a"
    and src: "get_column m s = Returns sref m" by blast
  from add_to_inv[OF inv rt slot src] ret
  have *: "matrix_inv M m'" "nextColumnIndex m' = nextColumnIndex m"
    "\<forall>k. ds_rep (columnClasses m) k \<noteq> ds_rep (columnClasses m) t \<longrightarrow>
              ds_rep (columnClasses m) k < length (repToColumn m) \<longrightarrow>
              repToColumn m' ! ds_rep (columnClasses m') k = repToColumn m ! ds_rep (columnClasses m) k"
    by auto
  show "matrix_inv M m'" "nextColumnIndex m' = nextColumnIndex m" by (rule *)+
  show "repToColumn m' ! ds_rep (columnClasses m') k = None"
    if k: "k < nextColumnIndex m" "repToColumn m ! ds_rep (columnClasses m) k = None" for k
  proof -
    have "ds_rep (columnClasses m) k \<noteq> ds_rep (columnClasses m) t" using k(2) slot by auto
    moreover have "ds_rep (columnClasses m) k < length (repToColumn m)"
      using i(1,3) k(1) unfolding classes_ok_def
      by (meson less_le_trans)
    ultimately show ?thesis using *(3) k(2) by simp
  qed
qed

lemma run_calls_inv:
  assumes "matrix_inv M m" "run_calls M m calls = Returns u m'"
  shows "matrix_inv M m' \<and>
         nextColumnIndex m' = nextColumnIndex m + length (filter is_insertion calls) \<and>
         (\<forall>k<nextColumnIndex m. repToColumn m ! ds_rep (columnClasses m) k = None \<longrightarrow>
            repToColumn m' ! ds_rep (columnClasses m') k = None)"
  using assms
proof (induction calls arbitrary: m)
  case Nil
  then show ?case by simp
next
  case (Cons c calls)
  show ?case
  proof (cases c)
    case (Insert_boundary boundary dimension)
    with Cons.prems(2) obtain m1 where m1: "insert_boundary M m boundary dimension = Returns () m1"
      "run_calls M m1 calls = Returns u m'"
      by (auto split: outcome.splits)
    note st = insert_boundary_step[OF Cons.prems(1) m1(1)]
    from Cons.IH[OF st(1) m1(2)] st(2,3) show ?thesis
      using Insert_boundary by (simp add: less_Suc_eq)
  next
    case (Add_to s t)
    with Cons.prems(2) obtain m1 where m1: "add_to M m s t = Returns () m1"
      "run_calls M m1 calls = Returns u m'"
      by (auto split: outcome.splits)
    note st = add_to_step[OF Cons.prems(1) m1(1)]
    from Cons.IH[OF st(1) m1(2)] st(2,3) show ?thesis
      using Add_to by simp
  qed
qed


section \<open>The number of columns\<close>

lemma reachable_inv:
  assumes "run_calls M (Base_matrix_with_column_compression_init n0) calls = Returns () m"
  shows "matrix_inv M m"
    "nextColumnIndex m = length (filter is_insertion calls)"
  using run_calls_inv[OF matrix_inv_init assms]
  by (simp_all add: Base_matrix_with_column_compression_init_def)



section \<open>Columns of an empty boundary\<close>

lemma get_column_result: "result_of (get_column m s) = Some ref \<Longrightarrow> get_column m s = Returns ref m"
  by (auto simp: get_column_def Let_def split: if_splits option.splits)

lemma is_zero_column_result:
  "result_of (is_zero_column m s) = Some b \<Longrightarrow> is_zero_column m s = Returns b m"
  by (auto simp: is_zero_column_def Let_def split: if_splits option.splits)

lemma null_class_reads:
  assumes "ds_rep (columnClasses m) k < length (repToColumn m)"
    and "repToColumn m ! ds_rep (columnClasses m) k = None"
  shows "get_column m k = Returns empty_column m" "is_zero_column m k = Returns True m"
    "is_zero_cell m k row = Returns True m"
  using assms by (simp_all add: get_column_def is_zero_column_def is_zero_cell_def find_set_def)

lemma matrix_inv_rep_less:
  assumes "matrix_inv M m" "k < nextColumnIndex m"
  shows "ds_rep (columnClasses m) k < nextColumnIndex m"
    "ds_rep (columnClasses m) k < length (repToColumn m)"
proof -
  note i = matrix_invD[OF assms(1)]
  show "ds_rep (columnClasses m) k < nextColumnIndex m"
    using i(1) assms(2) by (simp add: classes_ok_def)
  then show "ds_rep (columnClasses m) k < length (repToColumn m)" using i(3) by simp
qed

lemma insert_empty_boundary:
  assumes inv: "matrix_inv M m"
  shows "\<exists>m1. insert_boundary M m [] dimension = Returns () m1 \<and>
           columnPool m1 = columnPool m \<and> columnToRep m1 = columnToRep m \<and>
           matrix_inv M m1 \<and> nextColumnIndex m1 = Suc (nextColumnIndex m) \<and>
           repToColumn m1 ! ds_rep (columnClasses m1) (nextColumnIndex m) = None"
proof -
  note i = matrix_invD[OF inv]
  from insert_boundary_inv[OF inv, of "[]" dimension] obtain m1 where
    all: "insert_boundary M m [] dimension = Returns () m1 \<and> matrix_inv M m1 \<and>
           nextColumnIndex m1 = Suc (nextColumnIndex m) \<and>
           (\<forall>k<nextColumnIndex m. repToColumn m1 ! ds_rep (columnClasses m1) k =
                                  repToColumn m ! ds_rep (columnClasses m) k) \<and>
           (\<forall>b<poolNext m. stored_cells m1 b = stored_cells m b) \<and>
           (case repToColumn m1 ! ds_rep (columnClasses m1) (nextColumnIndex m) of
              None \<Rightarrow> ([] :: (nat \<times> nat) list) = []
            | Some a' \<Rightarrow> columnPool m1 a' \<noteq> None \<and>
                column_equiv M (stored_cells m1 a') (boundary_cells M []))" ..
  have m1: "insert_boundary M m [] dimension = Returns () m1" "matrix_inv M m1"
    "nextColumnIndex m1 = Suc (nextColumnIndex m)"
    using all by simp_all
  have m4: "case repToColumn m1 ! ds_rep (columnClasses m1) (nextColumnIndex m) of
              None \<Rightarrow> ([] :: (nat \<times> nat) list) = []
            | Some a' \<Rightarrow> columnPool m1 a' \<noteq> None \<and>
                column_equiv M (stored_cells m1 a') (boundary_cells M [])"
    using all by (elim conjE)
  have fresh: "columnPool m (poolNext m) = None" using i(4) by simp
  have pool: "columnPool m1 = columnPool m \<and> columnToRep m1 = columnToRep m"
  proof (cases "length (repToColumn m) = nextColumnIndex m")
    case True
    have "insert_boundary M m [] dimension =
        Returns () (m\<lparr>columnPool := (columnPool m)(poolNext m := None), poolNext := Suc (poolNext m),
           repToColumn := (repToColumn m @ [Some (poolNext m)])[nextColumnIndex m := None],
           nextColumnIndex := Suc (nextColumnIndex m)\<rparr>)"
      using True
      by (simp add: insert_boundary_def priv_insert_column_def Let_def is_empty_def
          Naive_vector_column_of_dim_def boundary_cells_def nth_append)
    with m1(1) have "m1 = m\<lparr>columnPool := (columnPool m)(poolNext m := None), poolNext := Suc (poolNext m),
           repToColumn := (repToColumn m @ [Some (poolNext m)])[nextColumnIndex m := None],
           nextColumnIndex := Suc (nextColumnIndex m)\<rparr>" by simp
    then show ?thesis using fresh by (simp add: fun_upd_idem)
  next
    case False
    then have lt: "nextColumnIndex m < length (repToColumn m)" using i(3) by simp
    have "insert_boundary M m [] dimension =
        Returns () (m\<lparr>columnPool := (columnPool m)(poolNext m := None), poolNext := Suc (poolNext m),
           repToColumn := ((repToColumn m)[nextColumnIndex m := Some (poolNext m)])[nextColumnIndex m := None],
           nextColumnIndex := Suc (nextColumnIndex m)\<rparr>)"
      using False lt
      by (simp add: insert_boundary_def priv_insert_column_def Let_def is_empty_def
          Naive_vector_column_of_dim_def boundary_cells_def)
    with m1(1) have "m1 = m\<lparr>columnPool := (columnPool m)(poolNext m := None), poolNext := Suc (poolNext m),
           repToColumn := ((repToColumn m)[nextColumnIndex m := Some (poolNext m)])[nextColumnIndex m := None],
           nextColumnIndex := Suc (nextColumnIndex m)\<rparr>" by simp
    then show ?thesis using fresh by (simp add: fun_upd_idem)
  qed
  have lt: "ds_rep (columnClasses m1) (nextColumnIndex m) < length (repToColumn m1)"
    using matrix_inv_rep_less(2)[OF m1(2), of "nextColumnIndex m"] m1(3) by simp
  have null: "repToColumn m1 ! ds_rep (columnClasses m1) (nextColumnIndex m) = None"
  proof (cases "repToColumn m1 ! ds_rep (columnClasses m1) (nextColumnIndex m)")
    case None
    then show ?thesis .
  next
    case (Some a')
    have "column_equiv M (stored_cells m1 a') (boundary_cells M [])"
      using m4 unfolding Some by simp
    then have e: "stored_cells m1 a' = []" by (simp add: boundary_cells_def)
    have a_in: "a' \<in> set (columnToRep m1)" using matrix_invD(5)[OF m1(2) lt Some] by simp
    from dict_okD[OF matrix_invD(2)[OF m1(2)] a_in] obtain c where
      "columnPool m1 a' = Some c" "column (base c) \<noteq> []" by blast
    then have "stored_cells m1 a' \<noteq> []" by (simp add: stored_cells_def)
    with e show ?thesis by simp
  qed
  show ?thesis
    apply (rule exI[of _ m1])
    apply (intro conjI)
         apply (rule m1(1))
        apply (rule pool[THEN conjunct1])
       apply (rule pool[THEN conjunct2])
      apply (rule m1(2))
     apply (rule m1(3))
    apply (rule null)
    done
qed

text \<open>
  C9. In a matrix reached by calls that returned, \<open>insert_boundary\<close> with an empty boundary
  returns and leaves the pool and the dictionary of the stored columns as they were: no
  physical column is stored for the new index. From then on, after any further calls that
  return, \<open>get_column\<close> gives the static empty column for this index, and \<open>is_zero_column\<close>
  and \<open>is_zero_cell\<close>, for every row, return true.
\<close>

theorem empty_boundary_stores_no_column:
  assumes "run_calls M (Base_matrix_with_column_compression_init n0) before = Returns () m0"
  shows "\<exists>m1. insert_boundary M m0 [] dimension = Returns () m1 \<and>
           columnPool m1 = columnPool m0 \<and> columnToRep m1 = columnToRep m0 \<and>
           (\<forall>after m. run_calls M m1 after = Returns () m \<longrightarrow>
              get_column m (get_number_of_columns m0) = Returns empty_column m \<and>
              is_zero_column m (get_number_of_columns m0) = Returns True m \<and>
              (\<forall>row. is_zero_cell m (get_number_of_columns m0) row = Returns True m))"
proof -
  let ?n = "nextColumnIndex m0"
  from insert_empty_boundary[OF reachable_inv(1)[OF assms], of dimension] obtain m1 where
    all: "insert_boundary M m0 [] dimension = Returns () m1 \<and>
           columnPool m1 = columnPool m0 \<and> columnToRep m1 = columnToRep m0 \<and>
           matrix_inv M m1 \<and> nextColumnIndex m1 = Suc ?n \<and>
           repToColumn m1 ! ds_rep (columnClasses m1) ?n = None" ..
  then have m1: "insert_boundary M m0 [] dimension = Returns () m1"
      "columnPool m1 = columnPool m0" "columnToRep m1 = columnToRep m0"
      "matrix_inv M m1" "nextColumnIndex m1 = Suc ?n"
      "repToColumn m1 ! ds_rep (columnClasses m1) ?n = None"
    by simp_all
  have later: "\<forall>after m. run_calls M m1 after = Returns () m \<longrightarrow>
              get_column m (get_number_of_columns m0) = Returns empty_column m \<and>
              is_zero_column m (get_number_of_columns m0) = Returns True m \<and>
              (\<forall>row. is_zero_cell m (get_number_of_columns m0) row = Returns True m)"
  proof (intro allI impI)
    fix after m assume run: "run_calls M m1 after = Returns () m"
    from run_calls_inv[OF m1(4) run] m1(5,6)
    have inv: "matrix_inv M m" and n: "?n < nextColumnIndex m"
      and null: "repToColumn m ! ds_rep (columnClasses m) ?n = None"
      by simp_all
    from null_class_reads[OF matrix_inv_rep_less(2)[OF inv n] null]
    show "get_column m (get_number_of_columns m0) = Returns empty_column m \<and>
              is_zero_column m (get_number_of_columns m0) = Returns True m \<and>
              (\<forall>row. is_zero_cell m (get_number_of_columns m0) row = Returns True m)"
      by (simp add: get_number_of_columns_def)
  qed
  show ?thesis
    apply (rule exI[of _ m1])
    apply (intro conjI)
       apply (rule m1(1))
      apply (rule m1(2))
     apply (rule m1(3))
    apply (rule later)
    done
qed

theorem empty_boundary_stores_no_column_witness:
  "\<exists>m1. insert_boundary Z2_options
           (state_of (run_calls Z2_options (Base_matrix_with_column_compression_init 0)
              [Insert_boundary [(0, 1)] 0])) [] (- 1) = Returns () m1 \<and>
     columnToRep m1 = columnToRep
           (state_of (run_calls Z2_options (Base_matrix_with_column_compression_init 0)
              [Insert_boundary [(0, 1)] 0])) \<and>
     (\<exists>m. run_calls Z2_options m1 [Insert_boundary [(0, 1)] 0, Add_to 2 0] = Returns () m \<and>
          get_column m 1 = Returns empty_column m \<and>
          is_zero_column m 1 = Returns True m \<and> is_zero_cell m 1 0 = Returns True m)"
proof -
  let ?out0 = "run_calls Z2_options (Base_matrix_with_column_compression_init 0)
              [Insert_boundary [(0, 1)] 0]"
  let ?after = "[Insert_boundary [(0, 1)] 0, Add_to 2 0]"
  have "returns ?out0" by code_simp
  then have h: "?out0 = Returns () (state_of ?out0)" by (rule returns_state_of)
  have n: "get_number_of_columns (state_of ?out0) = 1" by code_simp
  from empty_boundary_stores_no_column[OF h, of "- 1"] obtain m1 where
    all: "insert_boundary Z2_options (state_of ?out0) [] (- 1) = Returns () m1 \<and>
           columnPool m1 = columnPool (state_of ?out0) \<and>
           columnToRep m1 = columnToRep (state_of ?out0) \<and>
           (\<forall>after m. run_calls Z2_options m1 after = Returns () m \<longrightarrow>
              get_column m (get_number_of_columns (state_of ?out0)) = Returns empty_column m \<and>
              is_zero_column m (get_number_of_columns (state_of ?out0)) = Returns True m \<and>
              (\<forall>row. is_zero_cell m (get_number_of_columns (state_of ?out0)) row = Returns True m))" ..
  then have m1: "insert_boundary Z2_options (state_of ?out0) [] (- 1) = Returns () m1"
      "columnToRep m1 = columnToRep (state_of ?out0)"
    by simp_all
  have "returns (run_calls Z2_options
      (state_of (insert_boundary Z2_options (state_of ?out0) [] (- 1))) ?after)"
    by code_simp
  then have "returns (run_calls Z2_options m1 ?after)" by (simp only: m1(1) state_of.simps)
  then have r: "run_calls Z2_options m1 ?after = Returns () (state_of (run_calls Z2_options m1 ?after))"
    by (rule returns_state_of)
  from all[THEN conjunct2, THEN conjunct2, THEN conjunct2, rule_format, OF r]
  have z: "get_column (state_of (run_calls Z2_options m1 ?after)) 1 =
             Returns empty_column (state_of (run_calls Z2_options m1 ?after))"
    "is_zero_column (state_of (run_calls Z2_options m1 ?after)) 1 =
             Returns True (state_of (run_calls Z2_options m1 ?after))"
    "is_zero_cell (state_of (run_calls Z2_options m1 ?after)) 1 0 =
             Returns True (state_of (run_calls Z2_options m1 ?after))"
    unfolding n by simp_all
  show ?thesis
    apply (rule exI[of _ m1])
    apply (intro conjI)
      apply (rule m1(1))
     apply (rule m1(2))
    apply (rule exI[of _ "state_of (run_calls Z2_options m1 ?after)"])
    apply (intro conjI)
       apply (rule r)
      apply (rule z(1))
     apply (rule z(2))
    apply (rule z(3))
    done
qed

section \<open>Adding to the column of a class\<close>

lemma is_zero_column_False:
  assumes "is_zero_column m t = Returns False m'"
  shows "ds_rep (columnClasses m) t < length (repToColumn m)"
    "\<exists>a. repToColumn m ! ds_rep (columnClasses m) t = Some a"
  using assms
  by (auto simp: is_zero_column_def Let_def find_set_def split: if_splits option.splits)

lemma get_content_empty:
  "column c = [] \<Longrightarrow> column d = [] \<Longrightarrow> get_content M c n = get_content M d n"
  by (simp add: get_content_def)

text \<open>
  \<open>add_to\<close> on a target whose column is not zero, in a matrix reached by calls that
  returned: the call returns, and afterwards every index of the class of the target reads
  the same column, whose content is the sum of the target and the source. The source may
  be of the class of the target.
\<close>

lemma add_to_updates_whole_class:
  assumes reach: "run_calls M (Base_matrix_with_column_compression_init n0) calls = Returns () m"
    and tgt: "is_zero_column m t = Returns False m"
    and src: "get_column m s = Returns sref m"
    and same: "find_set (columnClasses m) k = find_set (columnClasses m) t"
  shows "\<exists>tref m' ref.
           get_column m t = Returns tref m \<and> get_column m k = Returns tref m \<and>
           add_to M m s t = Returns () m' \<and>
           get_column m' t = Returns ref m' \<and> get_column m' k = Returns ref m' \<and>
           (\<forall>n. get_content M (column_of m' ref) n =
                get_content M (plus_eq_range M (column_of m tref) (column (column_of m sref))) n)"
proof -
  note inv = reachable_inv(1)[OF reach]
  from is_zero_column_False[OF tgt] obtain a where
    rt: "ds_rep (columnClasses m) t < length (repToColumn m)"
    and slot: "repToColumn m ! ds_rep (columnClasses m) t = Some a" by blast
  have same': "ds_rep (columnClasses m) k = ds_rep (columnClasses m) t"
    using same by (simp add: find_set_def)
  from add_to_inv[OF inv rt slot src] obtain m' target where
    all: "columnPool m a = Some target \<and> add_to M m s t = Returns () m' \<and>
           matrix_inv M m' \<and> nextColumnIndex m' = nextColumnIndex m \<and>
           length (repToColumn m') = length (repToColumn m) \<and>
           (\<forall>k. ds_rep (columnClasses m) k = ds_rep (columnClasses m) t \<longrightarrow>
              ds_rep (columnClasses m') k = ds_rep (columnClasses m') t \<and>
              (case repToColumn m' ! ds_rep (columnClasses m') k of
                 None \<Rightarrow> column (plus_eq_range M (base target) (column (column_of m sref))) = []
               | Some a' \<Rightarrow> columnPool m' a' \<noteq> None \<and>
                   column_equiv M (stored_cells m' a')
                     (column (plus_eq_range M (base target) (column (column_of m sref)))))) \<and>
           (\<forall>k. ds_rep (columnClasses m) k \<noteq> ds_rep (columnClasses m) t \<longrightarrow>
              ds_rep (columnClasses m) k < length (repToColumn m) \<longrightarrow>
              repToColumn m' ! ds_rep (columnClasses m') k = repToColumn m ! ds_rep (columnClasses m) k) \<and>
           (\<forall>b. b \<noteq> a \<longrightarrow> stored_cells m' b = stored_cells m b)"
    by (elim exE)
  let ?sum = "plus_eq_range M (base target) (column (column_of m sref))"
  from all have target: "columnPool m a = Some target"
    and ret: "add_to M m s t = Returns () m'"
    and inv': "matrix_inv M m'" and nx: "nextColumnIndex m' = nextColumnIndex m"
    by simp_all
  from all have cls: "\<forall>k. ds_rep (columnClasses m) k = ds_rep (columnClasses m) t \<longrightarrow>
              ds_rep (columnClasses m') k = ds_rep (columnClasses m') t \<and>
              (case repToColumn m' ! ds_rep (columnClasses m') k of
                 None \<Rightarrow> column ?sum = []
               | Some a' \<Rightarrow> columnPool m' a' \<noteq> None \<and>
                   column_equiv M (stored_cells m' a') (column ?sum))"
    by (elim conjE)
  let ?tref = "Stored a"
  let ?r' = "ds_rep (columnClasses m') t"
  let ?ref = "case repToColumn m' ! ?r' of None \<Rightarrow> empty_column | Some b \<Rightarrow> Stored b"
  have g1: "get_column m t = Returns ?tref m"
    using rt slot by (simp add: get_column_Returns)
  have g2: "get_column m k = Returns ?tref m"
    using rt slot same' by (simp add: get_column_Returns)
  from matrix_invD(5)[OF inv rt slot] have a_in: "a \<in> set (columnToRep m)"
    and "\<exists>col. columnPool m a = Some col \<and> rep col = ds_rep (columnClasses m) t" by simp_all
  with target have rep_a: "rep target = ds_rep (columnClasses m) t" by simp
  from dict_okD[OF matrix_invD(2)[OF inv] a_in] obtain c where
    "columnPool m a = Some c" "rep c < nextColumnIndex m" by blast
  with target rep_a have rt_N: "ds_rep (columnClasses m) t < nextColumnIndex m" by simp
  have t_N: "t < nextColumnIndex m"
  proof (rule ccontr)
    assume "\<not> t < nextColumnIndex m"
    then have "nextColumnIndex m \<le> t" by simp
    moreover have "\<forall>k\<ge>nextColumnIndex m. ds_rep (columnClasses m) k = k"
      using matrix_invD(1)[OF inv] by (simp add: classes_ok_def)
    ultimately have "ds_rep (columnClasses m) t = t" by simp
    with rt_N \<open>\<not> t < nextColumnIndex m\<close> show False by simp
  qed
  have "t < nextColumnIndex m'" using t_N nx by simp
  then have r'_len: "?r' < length (repToColumn m')"
    by (rule matrix_inv_rep_less(2)[OF inv'])
  note cls_k = cls[rule_format, OF same']
  note cls_t = cls[rule_format, OF refl]
  have k': "ds_rep (columnClasses m') k = ?r'" by (rule cls_k[THEN conjunct1])
  have g3: "get_column m' t = Returns ?ref m'"
    using r'_len by (simp add: get_column_Returns)
  have g4: "get_column m' k = Returns ?ref m'"
    using r'_len k' by (simp add: get_column_Returns)
  have ct: "column_of m ?tref = base target"
    using target by (simp add: column_of_def)
  have content: "get_content M (column_of m' ?ref) n = get_content M ?sum n" for n
  proof (cases "repToColumn m' ! ?r'")
    case None
    have e1: "column ?sum = []" using cls_t[THEN conjunct2] unfolding None by simp
    have e2: "column (column_of m' ?ref) = []"
      unfolding None by (simp add: column_of_def Naive_vector_column_default_def)
    show ?thesis by (rule get_content_empty[OF e2 e1])
  next
    case (Some b)
    have st: "columnPool m' b \<noteq> None \<and> column_equiv M (stored_cells m' b) (column ?sum)"
      using cls_t[THEN conjunct2] unfolding Some by simp
    then obtain col where col: "columnPool m' b = Some col" by auto
    have "column (column_of m' ?ref) = stored_cells m' b"
      unfolding Some using col by (simp add: column_of_def stored_cells_def)
    with st have "column_equiv M (column (column_of m' ?ref)) (column ?sum)" by simp
    then show ?thesis by (rule column_equiv_get_content)
  qed
  have content': "\<forall>n. get_content M (column_of m' ?ref) n =
      get_content M (plus_eq_range M (column_of m ?tref) (column (column_of m sref))) n"
    unfolding ct using content by simp
  show ?thesis
    apply (rule exI[of _ ?tref])
    apply (rule exI[of _ m'])
    apply (rule exI[of _ ?ref])
    apply (intro conjI)
         apply (rule g1)
        apply (rule g2)
       apply (rule ret)
      apply (rule g3)
     apply (rule g4)
    apply (rule content')
    done
qed

text \<open>
  Over \<open>Z/2\<close>: the columns \<open>0\<close> and \<open>1\<close> are both \<open>{0}\<close> and share a column, column \<open>2\<close> is
  \<open>{1}\<close>. After \<open>add_to(2, 0)\<close> the indices \<open>0\<close> and \<open>1\<close> both read \<open>{0, 1}\<close>.
\<close>

lemma add_to_updates_whole_class_example:
  "\<exists>m' ref.
     add_to Z2_options
       (state_of (run_calls Z2_options (Base_matrix_with_column_compression_init 0)
          [Insert_boundary [(0, 1)] 0, Insert_boundary [(0, 1)] 0, Insert_boundary [(1, 1)] 0]))
       2 0 = Returns () m' \<and>
     get_column m' 0 = Returns ref m' \<and> get_column m' 1 = Returns ref m' \<and>
     get_content Z2_options (column_of m' ref) 2 = [1, 1]"
proof -
  let ?out = "run_calls Z2_options (Base_matrix_with_column_compression_init 0)
          [Insert_boundary [(0, 1)] 0, Insert_boundary [(0, 1)] 0, Insert_boundary [(1, 1)] 0]"
  let ?m = "state_of ?out"
  have "returns ?out" by code_simp
  then have h1: "?out = Returns () ?m" by (rule returns_state_of)
  have "result_of (is_zero_column ?m 0) = Some False" by code_simp
  then have h2: "is_zero_column ?m 0 = Returns False ?m" by (rule is_zero_column_result)
  have "result_of (get_column ?m 2) = Some (Stored 2)" by code_simp
  then have h3: "get_column ?m 2 = Returns (Stored 2) ?m" by (rule get_column_result)
  have h4: "find_set (columnClasses ?m) 1 = find_set (columnClasses ?m) 0" by code_simp
  from add_to_updates_whole_class[OF h1 h2 h3 h4] obtain tref m' ref where
    all: "get_column ?m 0 = Returns tref ?m \<and> get_column ?m 1 = Returns tref ?m \<and>
           add_to Z2_options ?m 2 0 = Returns () m' \<and>
           get_column m' 0 = Returns ref m' \<and> get_column m' 1 = Returns ref m' \<and>
           (\<forall>n. get_content Z2_options (column_of m' ref) n =
                get_content Z2_options
                  (plus_eq_range Z2_options (column_of ?m tref) (column (column_of ?m (Stored 2)))) n)"
    by (elim exE)
  have "result_of (get_column ?m 0) = Some (Stored 0)" by code_simp
  then have "get_column ?m 0 = Returns (Stored 0) ?m" by (rule get_column_result)
  with all have tref: "tref = Stored 0" by simp
  have sum: "get_content Z2_options
      (plus_eq_range Z2_options (column_of ?m (Stored 0)) (column (column_of ?m (Stored 2)))) 2 = [1, 1]"
    by code_simp
  have c: "get_content Z2_options (column_of m' ref) 2 = [1, 1]"
    using all[THEN conjunct2, THEN conjunct2, THEN conjunct2, THEN conjunct2, THEN conjunct2,
        rule_format, of 2]
    unfolding tref sum .
  show ?thesis
    apply (rule exI[of _ m'])
    apply (rule exI[of _ ref])
    apply (intro conjI)
       apply (rule all[THEN conjunct2, THEN conjunct2, THEN conjunct1])
      apply (rule all[THEN conjunct2, THEN conjunct2, THEN conjunct2, THEN conjunct1])
     apply (rule all[THEN conjunct2, THEN conjunct2, THEN conjunct2, THEN conjunct2, THEN conjunct1])
    apply (rule c)
    done
qed

text \<open>On a class whose pointer is null \<open>add_to\<close> dereferences the null pointer.\<close>

lemma add_to_null_class:
  assumes "ds_rep (columnClasses m) t < length (repToColumn m)"
    and "repToColumn m ! ds_rep (columnClasses m) t = None"
  shows "add_to M m s t = Throws NullDeref m"
  using assms by (simp add: add_to_def find_set_def)

text \<open>
  C1, at a class whose column has become zero. Over \<open>Z/2\<close> the columns \<open>0\<close> and \<open>1\<close> are
  both \<open>{0}\<close> and column \<open>2\<close> is \<open>{1}\<close>; \<open>add_to(1, 0)\<close> adds the column of the class of
  \<open>0\<close> and \<open>1\<close> to itself, which makes it zero and destroys it. The four calls return,
  \<open>0\<close> and \<open>1\<close> are still one class and column \<open>2\<close> is stored. Then \<open>add_to(2, 0)\<close> and
  \<open>add_to(2, 1)\<close> both dereference the null pointer of the class: no member is updated
  to \<open>{1}\<close>.
\<close>

theorem add_to_zero_class_updates_no_member:
  "run_calls Z2_options (Base_matrix_with_column_compression_init 0)
     [Insert_boundary [(0, 1)] 0, Insert_boundary [(0, 1)] 0, Insert_boundary [(1, 1)] 0, Add_to 1 0] =
   Returns ()
     (state_of (run_calls Z2_options (Base_matrix_with_column_compression_init 0)
        [Insert_boundary [(0, 1)] 0, Insert_boundary [(0, 1)] 0, Insert_boundary [(1, 1)] 0, Add_to 1 0])) \<and>
   find_set (columnClasses
     (state_of (run_calls Z2_options (Base_matrix_with_column_compression_init 0)
        [Insert_boundary [(0, 1)] 0, Insert_boundary [(0, 1)] 0, Insert_boundary [(1, 1)] 0, Add_to 1 0]))) 1 =
   find_set (columnClasses
     (state_of (run_calls Z2_options (Base_matrix_with_column_compression_init 0)
        [Insert_boundary [(0, 1)] 0, Insert_boundary [(0, 1)] 0, Insert_boundary [(1, 1)] 0, Add_to 1 0]))) 0 \<and>
   result_of (get_column
     (state_of (run_calls Z2_options (Base_matrix_with_column_compression_init 0)
        [Insert_boundary [(0, 1)] 0, Insert_boundary [(0, 1)] 0, Insert_boundary [(1, 1)] 0, Add_to 1 0])) 2) =
     Some (Stored 2) \<and>
   add_to Z2_options
     (state_of (run_calls Z2_options (Base_matrix_with_column_compression_init 0)
        [Insert_boundary [(0, 1)] 0, Insert_boundary [(0, 1)] 0, Insert_boundary [(1, 1)] 0, Add_to 1 0]))
     2 0 =
   Throws NullDeref
     (state_of (run_calls Z2_options (Base_matrix_with_column_compression_init 0)
        [Insert_boundary [(0, 1)] 0, Insert_boundary [(0, 1)] 0, Insert_boundary [(1, 1)] 0, Add_to 1 0])) \<and>
   add_to Z2_options
     (state_of (run_calls Z2_options (Base_matrix_with_column_compression_init 0)
        [Insert_boundary [(0, 1)] 0, Insert_boundary [(0, 1)] 0, Insert_boundary [(1, 1)] 0, Add_to 1 0]))
     2 1 =
   Throws NullDeref
     (state_of (run_calls Z2_options (Base_matrix_with_column_compression_init 0)
        [Insert_boundary [(0, 1)] 0, Insert_boundary [(0, 1)] 0, Insert_boundary [(1, 1)] 0, Add_to 1 0]))"
proof -
  let ?out = "run_calls Z2_options (Base_matrix_with_column_compression_init 0)
     [Insert_boundary [(0, 1)] 0, Insert_boundary [(0, 1)] 0, Insert_boundary [(1, 1)] 0, Add_to 1 0]"
  let ?m = "state_of ?out"
  have "returns ?out" by code_simp
  then have r: "?out = Returns () ?m" by (rule returns_state_of)
  have f: "find_set (columnClasses ?m) 1 = find_set (columnClasses ?m) 0" by code_simp
  have s: "result_of (get_column ?m 2) = Some (Stored 2)" by code_simp
  have len0: "ds_rep (columnClasses ?m) 0 < length (repToColumn ?m)" by code_simp
  have null0: "repToColumn ?m ! ds_rep (columnClasses ?m) 0 = None" by code_simp
  have len1: "ds_rep (columnClasses ?m) 1 < length (repToColumn ?m)" by code_simp
  have null1: "repToColumn ?m ! ds_rep (columnClasses ?m) 1 = None" by code_simp
  show ?thesis
    apply (intro conjI)
        apply (rule r)
       apply (rule f)
      apply (rule s)
     apply (rule add_to_null_class[OF len0 null0])
    apply (rule add_to_null_class[OF len1 null1])
    done
qed

text \<open>
  C4, at the column of an empty boundary. On the matrix with this one column,
  \<open>insert_boundary\<close> returns, index \<open>0\<close> is its own class and \<open>is_zero_column(0)\<close> returns
  true; \<open>add_to(0, 0)\<close>, whose source and target are the same index, dereferences the null
  pointer of the class instead of leaving the zero column.
\<close>

theorem add_to_zero_column_dereferences_null:
  "insert_boundary Z2_options (Base_matrix_with_column_compression_init 0) [] (- 1) =
     Returns () (state_of (insert_boundary Z2_options (Base_matrix_with_column_compression_init 0) [] (- 1))) \<and>
   find_set (columnClasses
     (state_of (insert_boundary Z2_options (Base_matrix_with_column_compression_init 0) [] (- 1)))) 0 = 0 \<and>
   is_zero_column
     (state_of (insert_boundary Z2_options (Base_matrix_with_column_compression_init 0) [] (- 1))) 0 =
     Returns True (state_of (insert_boundary Z2_options (Base_matrix_with_column_compression_init 0) [] (- 1))) \<and>
   add_to Z2_options
     (state_of (insert_boundary Z2_options (Base_matrix_with_column_compression_init 0) [] (- 1))) 0 0 =
     Throws NullDeref
       (state_of (insert_boundary Z2_options (Base_matrix_with_column_compression_init 0) [] (- 1)))"
proof -
  let ?out = "insert_boundary Z2_options (Base_matrix_with_column_compression_init 0) [] (- 1)"
  let ?m = "state_of ?out"
  have "returns ?out" by code_simp
  then have r: "?out = Returns () ?m" by (rule returns_state_of)
  have f: "find_set (columnClasses ?m) 0 = 0" by code_simp
  then have f': "ds_rep (columnClasses ?m) 0 = 0" by (simp add: find_set_def)
  have len: "ds_rep (columnClasses ?m) 0 < length (repToColumn ?m)"
    unfolding f' by code_simp
  have null: "repToColumn ?m ! ds_rep (columnClasses ?m) 0 = None"
    unfolding f' by code_simp
  show ?thesis
    apply (intro conjI)
       apply (rule r)
      apply (rule f)
     apply (rule null_class_reads(2)[OF len null])
    apply (rule add_to_null_class[OF len null])
    done
qed

end
